theory Spec2Isabelle
  imports Main
begin

section \<open>Basic types\<close>

text \<open>
  A Python \<open>str\<close> is a sequence of Unicode code points, and \<open>len\<close>, slicing and
  \<open>strip\<close> count code points. A string is therefore modelled as a list of code points
  (natural numbers), not as a list of bytes. \<open>str\<close> turns an ASCII literal into such a list.

  A timezone-aware \<open>datetime\<close> is an instant on the UTC time line; comparisons between aware
  datetimes compare instants. An instant is modelled as the integer number of microseconds
  since the epoch (the resolution of \<open>datetime\<close>).
\<close>

type_synonym pystr = "nat list"

type_synonym instant = int

definition str :: "string \<Rightarrow> pystr" where
  "str cs = map of_char cs"

text \<open>The exceptions the modelled code raises or lets through.\<close>

datatype error =
    LinearAPIError pystr
  | KeyError pystr
  | AttributeError pystr
  | TypeError pystr
  | OtherException pystr

section \<open>models.py\<close>

record cycle =
  cycle_id :: pystr
  cycle_name :: "pystr option"
  cycle_number :: "int option"
  starts_at :: instant
  ends_at :: instant

section \<open>draft.py: \<open>_pick_cycles\<close>\<close>

text \<open>
  Python's \<open>max(xs, key=k)\<close> keeps the first element whose key is maximal: the running best
  is replaced only by an element with a strictly larger key. \<open>min\<close> is symmetric.
  Both raise on an empty list; the source guards each call with a non-emptiness test, which
  the model expresses by matching on the list.
\<close>

fun max_from :: "('a \<Rightarrow> int) \<Rightarrow> 'a \<Rightarrow> 'a list \<Rightarrow> 'a" where
  "max_from k best [] = best"
| "max_from k best (x # xs) = max_from k (if k best < k x then x else best) xs"

fun min_from :: "('a \<Rightarrow> int) \<Rightarrow> 'a \<Rightarrow> 'a list \<Rightarrow> 'a" where
  "min_from k best [] = best"
| "min_from k best (x # xs) = min_from k (if k x < k best then x else best) xs"

definition contains_instant :: "instant \<Rightarrow> cycle \<Rightarrow> bool" where
  "contains_instant now_utc c \<longleftrightarrow> starts_at c \<le> now_utc \<and> now_utc \<le> ends_at c"

definition no_pair_msg :: pystr where
  "no_pair_msg = str ''Could not determine current/previous cycle from available cycles.''"

definition no_previous_msg :: pystr where
  "no_previous_msg = str ''Found current cycle but no previous cycle was available.''"

text \<open>
  \<open>sorted(cycles, key=...)\<close> is a stable sort, as \<open>sort_key\<close> is;
  \<open>next((c for c in cycles_sorted if ...), None)\<close> is \<open>find\<close>.
\<close>

definition pick_cycles :: "cycle list \<Rightarrow> instant \<Rightarrow> error + (cycle \<times> cycle)" where
  "pick_cycles cycles now_utc =
     (let cycles_sorted = sort_key starts_at cycles in
      case find (contains_instant now_utc) cycles_sorted of
        None \<Rightarrow>
          (let future = filter (\<lambda>c. starts_at c > now_utc) cycles_sorted;
               past = filter (\<lambda>c. ends_at c \<le> now_utc) cycles_sorted
           in case (future, past) of
                (f # fs, p # ps) \<Rightarrow> Inr (min_from starts_at f fs, max_from ends_at p ps)
              | _ \<Rightarrow> Inl (LinearAPIError no_pair_msg))
      | Some current \<Rightarrow>
          (let previous_candidates = filter (\<lambda>c. ends_at c < starts_at current) cycles_sorted
           in case previous_candidates of
                [] \<Rightarrow> Inl (LinearAPIError no_previous_msg)
              | p # ps \<Rightarrow> Inr (current, max_from ends_at p ps)))"

section \<open>Properties of the selection helpers\<close>

lemma max_from_mem: "max_from k b xs \<in> set (b # xs)"
  by (induction xs arbitrary: b) auto

lemma max_from_ge_best: "k b \<le> k (max_from k b xs)"
proof (induction xs arbitrary: b)
  case Nil
  show ?case by simp
next
  case (Cons x xs)
  have "k b \<le> k (if k b < k x then x else b)" by simp
  also have "\<dots> \<le> k (max_from k (if k b < k x then x else b) xs)" by (rule Cons.IH)
  finally show ?case by simp
qed

lemma max_from_upper: "y \<in> set (b # xs) \<Longrightarrow> k y \<le> k (max_from k b xs)"
proof (induction xs arbitrary: b)
  case Nil
  then show ?case by simp
next
  case (Cons x xs)
  let ?b' = "if k b < k x then x else b"
  from Cons.prems consider "y = b" | "y = x" | "y \<in> set xs" by auto
  then show ?case
  proof cases
    case 1
    then show ?thesis using max_from_ge_best [of k b "x # xs"] by simp
  next
    case 2
    have "k x \<le> k ?b'" by simp
    also have "\<dots> \<le> k (max_from k ?b' xs)" by (rule max_from_ge_best)
    finally show ?thesis using 2 by simp
  next
    case 3
    then have "k y \<le> k (max_from k ?b' xs)" using Cons.IH [of ?b'] by simp
    then show ?thesis by simp
  qed
qed

lemma min_from_mem: "min_from k b xs \<in> set (b # xs)"
  by (induction xs arbitrary: b) auto

lemma min_from_le_best: "k (min_from k b xs) \<le> k b"
proof (induction xs arbitrary: b)
  case Nil
  show ?case by simp
next
  case (Cons x xs)
  have "k (min_from k (if k x < k b then x else b) xs) \<le> k (if k x < k b then x else b)"
    by (rule Cons.IH)
  also have "\<dots> \<le> k b" by simp
  finally show ?case by simp
qed

lemma min_from_lower: "y \<in> set (b # xs) \<Longrightarrow> k (min_from k b xs) \<le> k y"
proof (induction xs arbitrary: b)
  case Nil
  then show ?case by simp
next
  case (Cons x xs)
  let ?b' = "if k x < k b then x else b"
  from Cons.prems consider "y = b" | "y = x" | "y \<in> set xs" by auto
  then show ?case
  proof cases
    case 1
    then show ?thesis using min_from_le_best [of k b "x # xs"] by simp
  next
    case 2
    have "k (min_from k ?b' xs) \<le> k ?b'" by (rule min_from_le_best)
    also have "\<dots> \<le> k x" by simp
    finally show ?thesis using 2 by simp
  next
    case 3
    then have "k (min_from k ?b' xs) \<le> k y" using Cons.IH [of ?b'] by simp
    then show ?thesis by simp
  qed
qed

lemma find_Some_mem: "find P xs = Some x \<Longrightarrow> x \<in> set xs \<and> P x"
  by (induction xs) (auto split: if_splits)

text \<open>The first element of a list sorted by a key that satisfies a predicate has the
  least key among the elements that satisfy it.\<close>

lemma find_sorted_least:
  assumes srt: "sorted (map k xs)" and fnd: "find P xs = Some x" and y: "y \<in> set xs" "P y"
  shows "k x \<le> k y"
proof -
  from fnd obtain i where i: "i < length xs" "xs ! i = x" "\<forall>j<i. \<not> P (xs ! j)"
    by (auto simp: find_Some_iff)
  from y(1) obtain j where j: "j < length xs" "xs ! j = y"
    by (auto simp: in_set_conv_nth)
  have "i \<le> j" using i(3) j(2) y(2) by (metis not_le_imp_less)
  then have "map k xs ! i \<le> map k xs ! j"
    using srt j(1) by (simp add: sorted_nth_mono del: nth_map)
  then show ?thesis using i j by simp
qed


section \<open>The Time-Window Resolver\<close>

lemma pick_cycles_current:
  assumes "find (contains_instant now_utc) (sort_key starts_at cycles) = Some current"
  shows "pick_cycles cycles now_utc =
     (case filter (\<lambda>c. ends_at c < starts_at current) (sort_key starts_at cycles) of
        [] \<Rightarrow> Inl (LinearAPIError no_previous_msg)
      | p # ps \<Rightarrow> Inr (current, max_from ends_at p ps))"
  using assms by (simp add: pick_cycles_def)

lemma pick_cycles_no_current:
  assumes "find (contains_instant now_utc) (sort_key starts_at cycles) = None"
  shows "pick_cycles cycles now_utc =
     (case (filter (\<lambda>c. starts_at c > now_utc) (sort_key starts_at cycles),
            filter (\<lambda>c. ends_at c \<le> now_utc) (sort_key starts_at cycles)) of
        (f # fs, p # ps) \<Rightarrow> Inr (min_from starts_at f fs, max_from ends_at p ps)
      | _ \<Rightarrow> Inl (LinearAPIError no_pair_msg))"
  using assms by (simp add: pick_cycles_def Let_def)

text \<open>What \<open>max\<close> and \<open>min\<close> select from a non-empty filtered view of the sorted list.\<close>

lemma max_from_filter:
  assumes "filter P (sort_key k' xs) = p # ps"
  shows "max_from k p ps \<in> set xs \<and> P (max_from k p ps)
       \<and> (\<forall>c\<in>set xs. P c \<longrightarrow> k c \<le> k (max_from k p ps))"
proof -
  have s: "set (p # ps) = {c \<in> set xs. P c}"
    using assms [symmetric] by simp
  have "max_from k p ps \<in> set (p # ps)" by (rule max_from_mem)
  moreover have "\<forall>c\<in>set (p # ps). k c \<le> k (max_from k p ps)"
    using max_from_upper [of _ p ps k] by blast
  ultimately show ?thesis unfolding s by blast
qed

lemma min_from_filter:
  assumes "filter P (sort_key k' xs) = p # ps"
  shows "min_from k p ps \<in> set xs \<and> P (min_from k p ps)
       \<and> (\<forall>c\<in>set xs. P c \<longrightarrow> k (min_from k p ps) \<le> k c)"
proof -
  have s: "set (p # ps) = {c \<in> set xs. P c}"
    using assms [symmetric] by simp
  have "min_from k p ps \<in> set (p # ps)" by (rule min_from_mem)
  moreover have "\<forall>c\<in>set (p # ps). k (min_from k p ps) \<le> k c"
    using min_from_lower [of _ p ps k] by blast
  ultimately show ?thesis unfolding s by blast
qed

lemma filter_sort_key_Nil_iff:
  "filter P (sort_key k xs) = [] \<longleftrightarrow> (\<forall>c\<in>set xs. \<not> P c)"
  by (simp add: filter_empty_conv)

text \<open>
  C1. When some cycle's closed interval contains the reference instant, the resolver takes as
  current a cycle of the list that contains the instant (the one with the earliest start, the
  first such in the list when several share it), and as previous the cycle with the latest end
  among the cycles that end strictly before the start of current. When no cycle ends strictly
  before the start of current, it raises the error instead.
\<close>

theorem pick_cycles_containment:
  assumes "\<exists>c\<in>set cycles. contains_instant now_utc c"
  shows "\<exists>current. current \<in> set cycles \<and> contains_instant now_utc current
      \<and> (\<forall>c\<in>set cycles. contains_instant now_utc c \<longrightarrow> starts_at current \<le> starts_at c)
      \<and> (if \<exists>c\<in>set cycles. ends_at c < starts_at current
          then \<exists>previous. pick_cycles cycles now_utc = Inr (current, previous)
                 \<and> previous \<in> set cycles \<and> ends_at previous < starts_at current
                 \<and> (\<forall>c\<in>set cycles. ends_at c < starts_at current
                       \<longrightarrow> ends_at c \<le> ends_at previous)
          else pick_cycles cycles now_utc = Inl (LinearAPIError no_previous_msg))"
proof -
  let ?sorted = "sort_key starts_at cycles"
  from assms have "find (contains_instant now_utc) ?sorted \<noteq> None"
    by (auto simp: find_None_iff)
  then obtain current where cur: "find (contains_instant now_utc) ?sorted = Some current"
    by blast
  then have mem: "current \<in> set cycles" and cont: "contains_instant now_utc current"
    using find_Some_mem [of "contains_instant now_utc" ?sorted current] by simp_all
  have least: "\<forall>c\<in>set cycles. contains_instant now_utc c \<longrightarrow> starts_at current \<le> starts_at c"
    using find_sorted_least [OF sorted_sort_key cur] by simp
  let ?cands = "filter (\<lambda>c. ends_at c < starts_at current) ?sorted"
  have res: "pick_cycles cycles now_utc =
     (case ?cands of [] \<Rightarrow> Inl (LinearAPIError no_previous_msg)
      | p # ps \<Rightarrow> Inr (current, max_from ends_at p ps))"
    by (rule pick_cycles_current [OF cur])
  have prev: "if \<exists>c\<in>set cycles. ends_at c < starts_at current
          then \<exists>previous. pick_cycles cycles now_utc = Inr (current, previous)
                 \<and> previous \<in> set cycles \<and> ends_at previous < starts_at current
                 \<and> (\<forall>c\<in>set cycles. ends_at c < starts_at current
                       \<longrightarrow> ends_at c \<le> ends_at previous)
          else pick_cycles cycles now_utc = Inl (LinearAPIError no_previous_msg)"
  proof (cases ?cands)
    case Nil
    then have "\<not> (\<exists>c\<in>set cycles. ends_at c < starts_at current)"
      by (simp add: filter_empty_conv)
    then show ?thesis using res Nil by simp
  next
    case (Cons p ps)
    have ex: "\<exists>c\<in>set cycles. ends_at c < starts_at current"
      using max_from_filter [OF Cons, of ends_at] by blast
    have "pick_cycles cycles now_utc = Inr (current, max_from ends_at p ps)"
      using res Cons by simp
    then show ?thesis using ex max_from_filter [OF Cons, of ends_at] by auto
  qed
  from mem cont least prev show ?thesis by blast
qed

subsection \<open>Example cycles\<close>

definition cycle_a :: cycle where
  "cycle_a = \<lparr>cycle_id = str ''a'', cycle_name = None, cycle_number = Some 1,
              starts_at = 0, ends_at = 10\<rparr>"

definition cycle_b :: cycle where
  "cycle_b = \<lparr>cycle_id = str ''b'', cycle_name = None, cycle_number = Some 2,
              starts_at = 11, ends_at = 20\<rparr>"

definition cycle_c :: cycle where
  "cycle_c = \<lparr>cycle_id = str ''c'', cycle_name = None, cycle_number = Some 3,
              starts_at = 30, ends_at = 40\<rparr>"

lemmas cycle_examples = cycle_a_def cycle_b_def cycle_c_def

theorem pick_cycles_containment_witness:
  "(\<exists>c\<in>set [cycle_c, cycle_b, cycle_a]. contains_instant 15 c)
   \<and> pick_cycles [cycle_c, cycle_b, cycle_a] 15 = Inr (cycle_b, cycle_a)"
proof -
  have h: "\<exists>c\<in>set [cycle_c, cycle_b, cycle_a]. contains_instant 15 c"
    by (simp add: contains_instant_def cycle_examples)
  from pick_cycles_containment [OF h] obtain current where
    cur: "current \<in> set [cycle_c, cycle_b, cycle_a]" "contains_instant 15 current"
    and rest: "if \<exists>c\<in>set [cycle_c, cycle_b, cycle_a]. ends_at c < starts_at current
          then \<exists>previous. pick_cycles [cycle_c, cycle_b, cycle_a] 15 = Inr (current, previous)
                 \<and> previous \<in> set [cycle_c, cycle_b, cycle_a]
                 \<and> ends_at previous < starts_at current
                 \<and> (\<forall>c\<in>set [cycle_c, cycle_b, cycle_a]. ends_at c < starts_at current
                       \<longrightarrow> ends_at c \<le> ends_at previous)
          else pick_cycles [cycle_c, cycle_b, cycle_a] 15 = Inl (LinearAPIError no_previous_msg)"
    by blast
  from cur have c: "current = cycle_b"
    by (auto simp: contains_instant_def cycle_examples)
  have "\<exists>c\<in>set [cycle_c, cycle_b, cycle_a]. ends_at c < starts_at cycle_b"
    by (simp add: cycle_examples)
  with rest c obtain previous where
    p: "pick_cycles [cycle_c, cycle_b, cycle_a] 15 = Inr (cycle_b, previous)"
      "previous \<in> set [cycle_c, cycle_b, cycle_a]" "ends_at previous < starts_at cycle_b"
    by auto
  from p(2,3) have "previous = cycle_a"
    by (auto simp: cycle_examples)
  with p(1) h show ?thesis by simp
qed

text \<open>
  What the source computes when no cycle contains the reference instant: future are the
  cycles that start strictly after it, past the cycles with \<open>c.ends_at <= now_utc\<close>.
\<close>

lemma pick_cycles_split:
  assumes "\<forall>c\<in>set cycles. \<not> contains_instant now_utc c"
  shows "if (\<exists>c\<in>set cycles. now_utc < starts_at c) \<and> (\<exists>c\<in>set cycles. ends_at c \<le> now_utc)
          then \<exists>current previous. pick_cycles cycles now_utc = Inr (current, previous)
                 \<and> current \<in> set cycles \<and> now_utc < starts_at current
                 \<and> (\<forall>c\<in>set cycles. now_utc < starts_at c
                       \<longrightarrow> starts_at current \<le> starts_at c)
                 \<and> previous \<in> set cycles \<and> ends_at previous \<le> now_utc
                 \<and> (\<forall>c\<in>set cycles. ends_at c \<le> now_utc
                       \<longrightarrow> ends_at c \<le> ends_at previous)
          else pick_cycles cycles now_utc = Inl (LinearAPIError no_pair_msg)"
proof -
  let ?sorted = "sort_key starts_at cycles"
  let ?future = "filter (\<lambda>c. now_utc < starts_at c) ?sorted"
  let ?past = "filter (\<lambda>c. ends_at c \<le> now_utc) ?sorted"
  from assms have "find (contains_instant now_utc) ?sorted = None"
    by (simp add: find_None_iff)
  then have res: "pick_cycles cycles now_utc =
     (case (?future, ?past) of
        (f # fs, p # ps) \<Rightarrow> Inr (min_from starts_at f fs, max_from ends_at p ps)
      | _ \<Rightarrow> Inl (LinearAPIError no_pair_msg))"
    by (rule pick_cycles_no_current)
  show ?thesis
  proof (cases ?future)
    case Nil
    then have "\<not> (\<exists>c\<in>set cycles. now_utc < starts_at c)"
      by (simp add: filter_empty_conv)
    then show ?thesis using res Nil by simp
  next
    case fut: (Cons f fs)
    show ?thesis
    proof (cases ?past)
      case Nil
      then have "\<not> (\<exists>c\<in>set cycles. ends_at c \<le> now_utc)"
        by (simp add: filter_empty_conv)
      then show ?thesis using res fut Nil by simp
    next
      case (Cons p ps)
      note F = min_from_filter [OF fut, of starts_at]
      note P = max_from_filter [OF Cons, of ends_at]
      have "pick_cycles cycles now_utc = Inr (min_from starts_at f fs, max_from ends_at p ps)"
        using res fut Cons by simp
      moreover have "(\<exists>c\<in>set cycles. now_utc < starts_at c) \<and> (\<exists>c\<in>set cycles. ends_at c \<le> now_utc)"
        using F P by blast
      ultimately show ?thesis using F P by auto
    qed
  qed
qed

text \<open>
  A cycle that starts strictly before it ends and does not contain the instant ends at or
  before the instant exactly when it ends strictly before it.
\<close>

lemma past_strict:
  assumes "starts_at c < ends_at c" and "\<not> contains_instant now_utc c"
  shows "ends_at c \<le> now_utc \<longleftrightarrow> ends_at c < now_utc"
  using assms by (auto simp: contains_instant_def)

text \<open>
  C2. For a list of cycles, each of which starts strictly before it ends as the data model
  has it, and a reference instant that no cycle contains: every cycle either ends strictly
  before the instant (past) or starts strictly after it (future), and the test \<open>c.ends_at <=
  now_utc\<close> of the source selects exactly the cycles that end strictly before the instant. When
  both sets are non-empty the resolver returns the future cycle with the earliest start as
  current and the past cycle with the latest end as previous; when either is empty it raises
  the error.
\<close>

theorem pick_cycles_fallback:
  assumes wf: "\<forall>c\<in>set cycles. starts_at c < ends_at c"
    and none: "\<forall>c\<in>set cycles. \<not> contains_instant now_utc c"
  shows "(\<forall>c\<in>set cycles. ends_at c < now_utc \<or> now_utc < starts_at c)
       \<and> filter (\<lambda>c. ends_at c \<le> now_utc) (sort_key starts_at cycles)
           = filter (\<lambda>c. ends_at c < now_utc) (sort_key starts_at cycles)
       \<and> (if (\<exists>c\<in>set cycles. now_utc < starts_at c) \<and> (\<exists>c\<in>set cycles. ends_at c < now_utc)
          then \<exists>current previous. pick_cycles cycles now_utc = Inr (current, previous)
                 \<and> current \<in> set cycles \<and> now_utc < starts_at current
                 \<and> (\<forall>c\<in>set cycles. now_utc < starts_at c
                       \<longrightarrow> starts_at current \<le> starts_at c)
                 \<and> previous \<in> set cycles \<and> ends_at previous < now_utc
                 \<and> (\<forall>c\<in>set cycles. ends_at c < now_utc
                       \<longrightarrow> ends_at c \<le> ends_at previous)
          else pick_cycles cycles now_utc = Inl (LinearAPIError no_pair_msg))"
proof -
  have strict: "ends_at c \<le> now_utc \<longleftrightarrow> ends_at c < now_utc" if "c \<in> set cycles" for c
    using past_strict [of c now_utc] wf none that by blast
  have part: "\<forall>c\<in>set cycles. ends_at c < now_utc \<or> now_utc < starts_at c"
    using none by (auto simp: contains_instant_def)
  have filt: "filter (\<lambda>c. ends_at c \<le> now_utc) (sort_key starts_at cycles)
           = filter (\<lambda>c. ends_at c < now_utc) (sort_key starts_at cycles)"
    by (rule filter_cong) (simp_all add: strict)
  have ex: "(\<exists>c\<in>set cycles. ends_at c \<le> now_utc) \<longleftrightarrow> (\<exists>c\<in>set cycles. ends_at c < now_utc)"
    using strict by blast
  note split = pick_cycles_split [OF none]
  have res: "if (\<exists>c\<in>set cycles. now_utc < starts_at c) \<and> (\<exists>c\<in>set cycles. ends_at c < now_utc)
          then \<exists>current previous. pick_cycles cycles now_utc = Inr (current, previous)
                 \<and> current \<in> set cycles \<and> now_utc < starts_at current
                 \<and> (\<forall>c\<in>set cycles. now_utc < starts_at c
                       \<longrightarrow> starts_at current \<le> starts_at c)
                 \<and> previous \<in> set cycles \<and> ends_at previous < now_utc
                 \<and> (\<forall>c\<in>set cycles. ends_at c < now_utc
                       \<longrightarrow> ends_at c \<le> ends_at previous)
          else pick_cycles cycles now_utc = Inl (LinearAPIError no_pair_msg)"
  proof (cases "(\<exists>c\<in>set cycles. now_utc < starts_at c) \<and> (\<exists>c\<in>set cycles. ends_at c < now_utc)")
    case True
    with ex have "(\<exists>c\<in>set cycles. now_utc < starts_at c) \<and> (\<exists>c\<in>set cycles. ends_at c \<le> now_utc)"
      by blast
    with split obtain current previous where
      r: "pick_cycles cycles now_utc = Inr (current, previous)"
        "current \<in> set cycles" "now_utc < starts_at current"
        "\<forall>c\<in>set cycles. now_utc < starts_at c \<longrightarrow> starts_at current \<le> starts_at c"
        "previous \<in> set cycles" "ends_at previous \<le> now_utc"
        "\<forall>c\<in>set cycles. ends_at c \<le> now_utc \<longrightarrow> ends_at c \<le> ends_at previous"
      by auto
    from r(5,6) strict have "ends_at previous < now_utc" by blast
    moreover from r(7) have "\<forall>c\<in>set cycles. ends_at c < now_utc \<longrightarrow> ends_at c \<le> ends_at previous"
      by auto
    ultimately show ?thesis using True r(1-5) by auto
  next
    case False
    with ex have "\<not> ((\<exists>c\<in>set cycles. now_utc < starts_at c) \<and> (\<exists>c\<in>set cycles. ends_at c \<le> now_utc))"
      by blast
    with split have "pick_cycles cycles now_utc = Inl (LinearAPIError no_pair_msg)"
      by simp
    with False show ?thesis by simp
  qed
  from part filt res show ?thesis by blast
qed

text \<open>
  Three cycles and the instant 25, in the gap between the second and the third; then an
  instant after all of them, where no future cycle is left.
\<close>

theorem pick_cycles_fallback_witness:
  "starts_at cycle_a < ends_at cycle_a \<and> starts_at cycle_b < ends_at cycle_b
   \<and> starts_at cycle_c < ends_at cycle_c
   \<and> \<not> contains_instant 25 cycle_a \<and> \<not> contains_instant 25 cycle_b
   \<and> \<not> contains_instant 25 cycle_c
   \<and> pick_cycles [cycle_c, cycle_a, cycle_b] 25 = Inr (cycle_c, cycle_b)"
proof -
  let ?cycles = "[cycle_c, cycle_a, cycle_b]"
  have wf: "\<forall>c\<in>set ?cycles. starts_at c < ends_at c"
    by (simp add: cycle_examples)
  have h: "\<forall>c\<in>set ?cycles. \<not> contains_instant 25 c"
    by (simp add: contains_instant_def cycle_examples)
  have both: "(\<exists>c\<in>set ?cycles. 25 < starts_at c) \<and> (\<exists>c\<in>set ?cycles. ends_at c < 25)"
    by (simp add: cycle_examples)
  from pick_cycles_fallback [OF wf h, THEN conjunct2, THEN conjunct2]
  have "\<exists>current previous. pick_cycles ?cycles 25 = Inr (current, previous)
          \<and> current \<in> set ?cycles \<and> 25 < starts_at current
          \<and> (\<forall>c\<in>set ?cycles. 25 < starts_at c \<longrightarrow> starts_at current \<le> starts_at c)
          \<and> previous \<in> set ?cycles \<and> ends_at previous < 25
          \<and> (\<forall>c\<in>set ?cycles. ends_at c < 25 \<longrightarrow> ends_at c \<le> ends_at previous)"
    unfolding if_P [OF both] .
  then obtain current previous where
    r: "pick_cycles ?cycles 25 = Inr (current, previous)"
      "current \<in> set ?cycles" "25 < starts_at current"
      "previous \<in> set ?cycles" "ends_at previous < 25"
      "\<forall>c\<in>set ?cycles. ends_at c < 25 \<longrightarrow> ends_at c \<le> ends_at previous"
    by blast
  from r(2,3) have c: "current = cycle_c"
    by (auto simp: cycle_examples)
  from r(6) have "ends_at cycle_b \<le> ends_at previous"
    by (simp add: cycle_examples)
  with r(4,5) have p: "previous = cycle_b"
    by (auto simp: cycle_examples)
  from r(1) c p have "pick_cycles ?cycles 25 = Inr (cycle_c, cycle_b)" by simp
  moreover from h have "\<not> contains_instant 25 cycle_a" "\<not> contains_instant 25 cycle_b"
    "\<not> contains_instant 25 cycle_c" by simp_all
  moreover from wf have "starts_at cycle_a < ends_at cycle_a" "starts_at cycle_b < ends_at cycle_b"
    "starts_at cycle_c < ends_at cycle_c" by simp_all
  ultimately show ?thesis by simp
qed

text \<open>
  C3. When every cycle starts strictly before it ends and the resolver returns a pair, in
  either branch, the previous cycle ends strictly before the current cycle starts.
\<close>

theorem pick_cycles_previous_before_current:
  assumes wf: "\<forall>c\<in>set cycles. starts_at c < ends_at c"
    and ret: "pick_cycles cycles now_utc = Inr (current, previous)"
  shows "ends_at previous < starts_at current"
proof (cases "find (contains_instant now_utc) (sort_key starts_at cycles)")
  case None
  let ?sorted = "sort_key starts_at cycles"
  note res = pick_cycles_no_current [OF None]
  from res ret obtain f fs p ps where
    fut: "filter (\<lambda>c. now_utc < starts_at c) ?sorted = f # fs"
    and past: "filter (\<lambda>c. ends_at c \<le> now_utc) ?sorted = p # ps"
    and cur: "current = min_from starts_at f fs" and prev: "previous = max_from ends_at p ps"
    by (auto split: list.splits)
  have "now_utc < starts_at current"
    using min_from_filter [OF fut, of starts_at] cur by simp
  moreover have "ends_at previous \<le> now_utc"
    using max_from_filter [OF past, of ends_at] prev by simp
  ultimately show ?thesis by simp
next
  case (Some cur)
  note res = pick_cycles_current [OF Some]
  from res ret obtain p ps where
    cands: "filter (\<lambda>c. ends_at c < starts_at cur) (sort_key starts_at cycles) = p # ps"
    and eq: "current = cur" "previous = max_from ends_at p ps"
    by (auto split: list.splits)
  show ?thesis
    using max_from_filter [OF cands, of ends_at] eq by simp
qed

theorem pick_cycles_previous_before_current_witness:
  "starts_at cycle_a < ends_at cycle_a \<and> starts_at cycle_b < ends_at cycle_b
   \<and> starts_at cycle_c < ends_at cycle_c
   \<and> pick_cycles [cycle_c, cycle_a, cycle_b] 35 = Inr (cycle_c, cycle_b)
   \<and> ends_at cycle_b < starts_at cycle_c"
proof -
  let ?cycles = "[cycle_c, cycle_a, cycle_b]"
  have wf: "\<forall>c\<in>set ?cycles. starts_at c < ends_at c"
    by (simp add: cycle_examples)
  have ret: "pick_cycles ?cycles 35 = Inr (cycle_c, cycle_b)"
    by (simp add: pick_cycles_def contains_instant_def cycle_examples Let_def)
  have "ends_at cycle_b < starts_at cycle_c"
    by (rule pick_cycles_previous_before_current [OF wf ret])
  with wf ret show ?thesis by simp
qed


section \<open>models.py: issue history\<close>

record issue_history =
  history_id :: pystr
  history_created_at :: instant
  history_type :: "pystr option"
  from_state :: "pystr option"
  to_state :: "pystr option"

section \<open>draft.py: staleness of a current-cycle issue\<close>

text \<open>
  \<open>timedelta(weeks=2)\<close> in microseconds. \<open>now_utc\<close> is the current time, so the subtraction
  stays within the range of \<open>datetime\<close>.
\<close>

definition two_weeks :: int where
  "two_weeks = 2 * 7 * 24 * 60 * 60 * 1000000"

definition state_changes :: "issue_history list \<Rightarrow> issue_history list" where
  "state_changes history = filter (\<lambda>h. to_state h \<noteq> None) history"

text \<open>\<open>max((h.created_at for h in state_changes), default=None)\<close>\<close>

definition last_state_change :: "issue_history list \<Rightarrow> instant option" where
  "last_state_change history =
     (case map history_created_at (state_changes history) of
        [] \<Rightarrow> None
      | t # ts \<Rightarrow> Some (max_from (\<lambda>t. t) t ts))"

definition is_stale :: "instant \<Rightarrow> issue_history list \<Rightarrow> bool" where
  "is_stale now_utc history =
     (let two_weeks_ago = now_utc - two_weeks in
      case last_state_change history of
        None \<Rightarrow> False
      | Some t \<Rightarrow> t < two_weeks_ago)"

lemma last_state_change_None:
  "last_state_change history = None \<longleftrightarrow> (\<forall>h\<in>set history. to_state h = None)"
proof -
  have "last_state_change history = None \<longleftrightarrow> state_changes history = []"
    by (cases "state_changes history") (simp_all add: last_state_change_def)
  also have "\<dots> \<longleftrightarrow> (\<forall>h\<in>set history. to_state h = None)"
    by (simp add: state_changes_def filter_empty_conv)
  finally show ?thesis .
qed

lemma two_weeks_days: "two_weeks = 14 * 86400000000"
  by (simp add: two_weeks_def)

lemma last_state_change_Some:
  assumes "last_state_change history = Some t"
  shows "(\<exists>h\<in>set history. to_state h \<noteq> None \<and> history_created_at h = t)
       \<and> (\<forall>h\<in>set history. to_state h \<noteq> None \<longrightarrow> history_created_at h \<le> t)"
proof -
  from assms obtain u us where
    m: "map history_created_at (state_changes history) = u # us" and t: "t = max_from (\<lambda>t. t) u us"
    by (auto simp: last_state_change_def split: list.splits)
  have s: "set (u # us) = history_created_at ` {h \<in> set history. to_state h \<noteq> None}"
    unfolding m [symmetric] by (auto simp: state_changes_def)
  have "t \<in> set (u # us)" unfolding t by (rule max_from_mem)
  moreover have "\<forall>v\<in>set (u # us). v \<le> t"
    unfolding t using max_from_upper [of _ u us "\<lambda>t. t"] by blast
  ultimately show ?thesis unfolding s by blast
qed

text \<open>
  C4. The last state change is the latest creation instant among the history events with a
  to-state, absent when there is none. The issue is stale exactly when a last state change
  exists and lies strictly before the reference instant minus 14 days; a change exactly
  14 days before the reference instant is not stale.
\<close>

theorem is_stale_last_state_change:
  "(case last_state_change history of
      None \<Rightarrow> (\<forall>h\<in>set history. to_state h = None) \<and> \<not> is_stale now_utc history
    | Some t \<Rightarrow>
        (\<exists>h\<in>set history. to_state h \<noteq> None \<and> history_created_at h = t)
        \<and> (\<forall>h\<in>set history. to_state h \<noteq> None \<longrightarrow> history_created_at h \<le> t)
        \<and> (is_stale now_utc history \<longleftrightarrow> t < now_utc - 14 * 86400000000))
   \<and> (last_state_change history = Some (now_utc - 14 * 86400000000)
        \<longrightarrow> \<not> is_stale now_utc history)"
proof -
  have stale: "is_stale now_utc history =
      (case last_state_change history of None \<Rightarrow> False | Some t \<Rightarrow> t < now_utc - 14 * 86400000000)"
    unfolding is_stale_def Let_def two_weeks_days ..
  show ?thesis
  proof (cases "last_state_change history")
    case None
    then show ?thesis using stale last_state_change_None [of history] by simp
  next
    case (Some t)
    then show ?thesis using stale last_state_change_Some [OF Some] by simp
  qed
qed

definition history_example :: "issue_history list" where
  "history_example =
     [\<lparr>history_id = str ''h1'', history_created_at = 100, history_type = None,
        from_state = Some (str ''Todo''), to_state = None\<rparr>,
      \<lparr>history_id = str ''h2'', history_created_at = 7, history_type = None,
        from_state = None, to_state = Some (str ''Doing'')\<rparr>,
      \<lparr>history_id = str ''h3'', history_created_at = 5, history_type = None,
        from_state = None, to_state = Some (str ''Todo'')\<rparr>]"

theorem is_stale_last_state_change_witness:
  "last_state_change history_example = Some 7
   \<and> \<not> is_stale (7 + 14 * 86400000000) history_example
   \<and> is_stale (8 + 14 * 86400000000) history_example"
proof -
  have l: "last_state_change history_example = Some 7"
    by (simp add: last_state_change_def state_changes_def history_example_def)
  have "\<not> is_stale (7 + 14 * 86400000000) history_example"
    using is_stale_last_state_change [of history_example "7 + 14 * 86400000000"] l by simp
  moreover have "is_stale (8 + 14 * 86400000000) history_example"
    using is_stale_last_state_change [of history_example "8 + 14 * 86400000000"] l by simp
  ultimately show ?thesis using l by simp
qed


section \<open>draft.py: \<open>_truncate\<close>\<close>

text \<open>
  \<open>str.strip()\<close> without arguments removes the characters for which \<open>str.isspace\<close> holds:
  U+0009 to U+000D, U+001C to U+0020, U+0085, U+00A0, U+1680, U+2000 to U+200A, U+2028,
  U+2029, U+202F, U+205F and U+3000.
\<close>

definition is_space :: "nat \<Rightarrow> bool" where
  "is_space c \<longleftrightarrow>
     (9 \<le> c \<and> c \<le> 13) \<or> (28 \<le> c \<and> c \<le> 32) \<or> c = 133 \<or> c = 160 \<or> c = 5760
     \<or> (8192 \<le> c \<and> c \<le> 8202) \<or> c = 8232 \<or> c = 8233 \<or> c = 8239 \<or> c = 8287
     \<or> c = 12288"

definition lstrip :: "pystr \<Rightarrow> pystr" where
  "lstrip s = dropWhile is_space s"

definition rstrip :: "pystr \<Rightarrow> pystr" where
  "rstrip s = rev (dropWhile is_space (rev s))"

definition strip :: "pystr \<Rightarrow> pystr" where
  "strip s = rstrip (lstrip s)"

text \<open>The slice \<open>xs[:n]\<close>: a negative bound counts from the end.\<close>

definition slice_to :: "'a list \<Rightarrow> int \<Rightarrow> 'a list" where
  "slice_to xs n = (if 0 \<le> n then take (nat n) xs else take (length xs - nat (- n)) xs)"

text \<open>The ellipsis character U+2026.\<close>

definition ellipsis :: nat where
  "ellipsis = 8230"

text \<open>
  \<open>_truncate\<close>, named \<open>truncate_str\<close> here because records declare a \<open>truncate\<close> of
  their own. \<open>text or ""\<close> replaces \<open>None\<close> and the empty string by the empty string; on a string
  (the declared type of the argument) it is the identity.
\<close>

definition truncate_str :: "pystr \<Rightarrow> int \<Rightarrow> pystr" where
  "truncate_str text max_chars =
     (let text = strip text in
      if int (length text) \<le> max_chars then text
      else rstrip (slice_to text (max_chars - 1)) @ [ellipsis])"

subsection \<open>Trimming\<close>

definition stripped :: "pystr \<Rightarrow> bool" where
  "stripped s \<longleftrightarrow> s = [] \<or> (\<not> is_space (hd s) \<and> \<not> is_space (last s))"

lemma lstrip_hd: "lstrip s \<noteq> [] \<Longrightarrow> \<not> is_space (hd (lstrip s))"
  unfolding lstrip_def by (simp add: hd_dropWhile)

lemma rstrip_last: "rstrip s \<noteq> [] \<Longrightarrow> \<not> is_space (last (rstrip s))"
  unfolding rstrip_def by (simp add: last_rev hd_dropWhile)

lemma lstrip_id: "s = [] \<or> \<not> is_space (hd s) \<Longrightarrow> lstrip s = s"
  unfolding lstrip_def by (cases s) auto

lemma rstrip_id: "s = [] \<or> \<not> is_space (last s) \<Longrightarrow> rstrip s = s"
  unfolding rstrip_def by (cases s rule: rev_cases) auto

lemma rstrip_prefix: "\<exists>ws. s = rstrip s @ ws \<and> (\<forall>c\<in>set ws. is_space c)"
proof -
  have "rev s = takeWhile is_space (rev s) @ dropWhile is_space (rev s)" by simp
  then have "s = rev (dropWhile is_space (rev s)) @ rev (takeWhile is_space (rev s))"
    by (metis rev_append rev_rev_ident)
  moreover have "\<forall>c\<in>set (rev (takeWhile is_space (rev s))). is_space c"
    by (auto dest: set_takeWhileD)
  ultimately show ?thesis unfolding rstrip_def by blast
qed

lemma length_rstrip: "length (rstrip s) \<le> length s"
  unfolding rstrip_def using length_dropWhile_le [of is_space "rev s"] by simp

lemma rstrip_hd:
  assumes "s \<noteq> []" "\<not> is_space (hd s)"
  shows "rstrip s \<noteq> [] \<and> hd (rstrip s) = hd s"
proof -
  from rstrip_prefix [of s] obtain ws where ws: "s = rstrip s @ ws" "\<forall>c\<in>set ws. is_space c"
    by blast
  have ne: "rstrip s \<noteq> []"
  proof
    assume "rstrip s = []"
    with ws have "s = ws" by simp
    with assms ws(2) show False by (cases s) auto
  qed
  then have "hd s = hd (rstrip s)" using ws(1) by (metis hd_append2)
  with ne show ?thesis by simp
qed

lemma strip_stripped: "stripped (strip s)"
proof (cases "lstrip s = []")
  case True
  then show ?thesis by (simp add: strip_def stripped_def rstrip_def)
next
  case False
  then have h: "\<not> is_space (hd (lstrip s))" by (rule lstrip_hd)
  from rstrip_hd [OF False h] have "strip s \<noteq> []" "\<not> is_space (hd (strip s))"
    using h by (simp_all add: strip_def)
  moreover have "\<not> is_space (last (strip s))"
    using \<open>strip s \<noteq> []\<close> rstrip_last [of "lstrip s"] by (simp add: strip_def)
  ultimately show ?thesis by (simp add: stripped_def)
qed

lemma strip_id: "stripped s \<Longrightarrow> strip s = s"
  unfolding stripped_def strip_def by (auto simp: lstrip_id rstrip_id)

lemma strip_idem: "strip (strip s) = strip s"
  by (rule strip_id) (rule strip_stripped)


lemma rstrip_snoc_space: "is_space c \<Longrightarrow> rstrip (s @ [c]) = rstrip s"
  by (simp add: rstrip_def)

lemma not_space_ellipsis: "\<not> is_space ellipsis"
  by (simp add: is_space_def ellipsis_def)

subsection \<open>Truncation\<close>

lemma truncate_short: "int (length (strip body)) \<le> m \<Longrightarrow> truncate_str body m = strip body"
  by (simp add: truncate_str_def)

lemma truncate_long:
  "\<not> int (length (strip body)) \<le> m \<Longrightarrow>
     truncate_str body m = rstrip (slice_to (strip body) (m - 1)) @ [ellipsis]"
  by (simp add: truncate_str_def)

lemma truncate_length:
  assumes "1 \<le> m"
  shows "int (length (truncate_str s m)) \<le> m"
proof (cases "int (length (strip s)) \<le> m")
  case True
  then show ?thesis by (simp add: truncate_short)
next
  case False
  have "length (rstrip (slice_to (strip s) (m - 1))) \<le> length (slice_to (strip s) (m - 1))"
    by (rule length_rstrip)
  also have "\<dots> \<le> nat (m - 1)" using assms by (simp add: slice_to_def)
  finally show ?thesis using assms False by (simp add: truncate_long)
qed

lemma truncate_stripped:
  assumes "1 \<le> m"
  shows "stripped (truncate_str s m)"
proof (cases "int (length (strip s)) \<le> m")
  case True
  then show ?thesis by (simp add: truncate_short strip_stripped)
next
  case False
  let ?t = "strip s"
  let ?p = "rstrip (slice_to ?t (m - 1))"
  have r: "truncate_str s m = ?p @ [ellipsis]" using False by (rule truncate_long)
  have "\<not> is_space (hd (?p @ [ellipsis]))"
  proof (cases "?p = []")
    case True
    then show ?thesis by (simp add: not_space_ellipsis)
  next
    case ne: False
    then have k: "slice_to ?t (m - 1) \<noteq> []" by (auto simp: rstrip_def)
    then have t: "?t \<noteq> []" using assms by (auto simp: slice_to_def)
    have "stripped ?t" by (rule strip_stripped)
    with t have h: "\<not> is_space (hd ?t)" by (simp add: stripped_def)
    have "hd (slice_to ?t (m - 1)) = hd ?t"
      using k assms by (simp add: slice_to_def hd_take)
    with h rstrip_hd [OF k] have "hd ?p = hd ?t" by simp
    with h ne show ?thesis by simp
  qed
  then show ?thesis unfolding r by (simp add: stripped_def not_space_ellipsis)
qed

lemma truncate_idem:
  assumes "1 \<le> m"
  shows "truncate_str (truncate_str s m) m = truncate_str s m"
proof -
  have "strip (truncate_str s m) = truncate_str s m"
    by (rule strip_id) (rule truncate_stripped [OF assms])
  moreover have "int (length (truncate_str s m)) \<le> m" by (rule truncate_length [OF assms])
  ultimately show ?thesis using truncate_short [of "truncate_str s m" m] by simp
qed

text \<open>
  C10. With the limit 500 the truncation of any string, of whatever length and also of
  whitespace only, has at most 500 characters, and truncating twice gives what truncating
  once gives.
\<close>

theorem truncate_bounded_idempotent:
  "length (truncate_str s 500) \<le> 500 \<and> truncate_str (truncate_str s 500) 500 = truncate_str s 500"
  using truncate_length [of 500 s] truncate_idem [of 500 s] by simp

text \<open>
  C5, as amended. With the limit 500, a body whose trimmed length is at most 500 is returned
  trimmed and otherwise unchanged. A body whose trimmed length exceeds 500 is cut to the first
  499 characters of the trimmed body, trailing whitespace of that prefix is removed, and the
  ellipsis is appended: the result has at most 500 characters, and it is the first 499
  characters plus the ellipsis, of length exactly 500, when the 499th character of the
  trimmed body is not whitespace.
\<close>

theorem truncate_500:
  "(length (strip body) \<le> 500 \<longrightarrow> truncate_str body 500 = strip body)
   \<and> (500 < length (strip body) \<longrightarrow>
        truncate_str body 500 = rstrip (take 499 (strip body)) @ [ellipsis]
        \<and> length (truncate_str body 500) \<le> 500
        \<and> (\<not> is_space (strip body ! 498) \<longrightarrow>
             truncate_str body 500 = take 499 (strip body) @ [ellipsis]
             \<and> length (truncate_str body 500) = 500))"
proof -
  let ?t = "strip body"
  have short: "length ?t \<le> 500 \<longrightarrow> truncate_str body 500 = ?t"
    by (simp add: truncate_short)
  have long: "truncate_str body 500 = rstrip (take 499 ?t) @ [ellipsis]" if "500 < length ?t"
    using that truncate_long [of body 500] by (simp add: slice_to_def)
  have bound: "length (truncate_str body 500) \<le> 500"
    using truncate_length [of 500 body] by simp
  have exact: "truncate_str body 500 = take 499 ?t @ [ellipsis] \<and> length (truncate_str body 500) = 500"
    if len: "500 < length ?t" and ns: "\<not> is_space (?t ! 498)"
  proof -
    from len have "take 499 ?t \<noteq> []" by auto
    moreover have "last (take 499 ?t) = ?t ! 498"
    proof -
      have "last (take 499 ?t) = take 499 ?t ! (length (take 499 ?t) - 1)"
        using \<open>take 499 ?t \<noteq> []\<close> by (rule last_conv_nth)
      also have "\<dots> = ?t ! 498" using len by simp
      finally show ?thesis .
    qed
    ultimately have "rstrip (take 499 ?t) = take 499 ?t"
      using ns by (simp add: rstrip_id)
    with long [OF len] len show ?thesis by simp
  qed
  from short long bound exact show ?thesis by blast
qed


text \<open>A body of 501 letters, and a body of 501 characters whose 499th is a space.\<close>

definition body_plain :: pystr where
  "body_plain = replicate 501 97"

definition body_gap :: pystr where
  "body_gap = replicate 498 97 @ [32] @ [98, 98]"

theorem truncate_500_witness:
  "length (strip body_plain) = 501 \<and> \<not> is_space (strip body_plain ! 498)
   \<and> truncate_str body_plain 500 = replicate 499 97 @ [ellipsis]
   \<and> length (truncate_str body_plain 500) = 500
   \<and> length (strip (str ''  ok '')) = 2
   \<and> truncate_str (str ''  ok '') 500 = str ''ok''"
proof -
  have st: "strip body_plain = body_plain"
    by (rule strip_id) (simp add: stripped_def body_plain_def is_space_def)
  have len: "500 < length (strip body_plain)"
    unfolding st by (simp add: body_plain_def)
  have ns: "\<not> is_space (strip body_plain ! 498)"
    unfolding st by (simp add: body_plain_def is_space_def)
  from truncate_500 [of body_plain] len ns
  have "truncate_str body_plain 500 = take 499 (strip body_plain) @ [ellipsis]
      \<and> length (truncate_str body_plain 500) = 500"
    by blast
  then have long: "truncate_str body_plain 500 = replicate 499 97 @ [ellipsis]
      \<and> length (truncate_str body_plain 500) = 500"
    unfolding st by (simp add: body_plain_def)
  have ok: "strip (str ''  ok '') = str ''ok''"
    by (simp add: strip_def lstrip_def rstrip_def str_def is_space_def)
  have "length (strip (str ''  ok '')) \<le> 500" unfolding ok by (simp add: str_def)
  with truncate_500 [of "str ''  ok ''"] have "truncate_str (str ''  ok '') 500 = strip (str ''  ok '')"
    by blast
  with ok have short: "truncate_str (str ''  ok '') 500 = str ''ok''" by simp
  have two: "length (strip (str ''  ok '')) = 2" unfolding ok by (simp add: str_def)
  have "length (strip body_plain) = 501" unfolding st by (simp add: body_plain_def)
  with long short ns two show ?thesis by blast
qed

text \<open>
  The claim as written promises the first 499 characters plus the ellipsis, of total length
  exactly 500, for every body of 501 characters. The source right-trims the 499-character
  prefix before appending the ellipsis: for the body below, which has no leading or trailing
  whitespace, the result has 499 characters.
\<close>

theorem truncate_500_counterexample:
  "length body_gap = 501 \<and> strip body_gap = body_gap
   \<and> truncate_str body_gap 500 = replicate 498 97 @ [ellipsis]
   \<and> length (truncate_str body_gap 500) = 499
   \<and> truncate_str body_gap 500 \<noteq> take 499 body_gap @ [ellipsis]"
proof -
  have len: "length body_gap = 501" by (simp add: body_gap_def)
  have st: "strip body_gap = body_gap"
    by (rule strip_id) (simp add: stripped_def body_gap_def is_space_def hd_append)
  have tk: "take 499 body_gap = replicate 498 97 @ [32]"
    by (simp add: body_gap_def)
  have "rstrip (replicate 498 97 @ [32]) = rstrip (replicate 498 97)"
    by (rule rstrip_snoc_space) (simp add: is_space_def)
  also have "\<dots> = replicate 498 97"
    by (rule rstrip_id) (simp add: is_space_def)
  finally have rs: "rstrip (take 499 body_gap) = replicate 498 97" by (simp add: tk)
  have "\<not> int (length (strip body_gap)) \<le> 500" by (simp add: st len)
  then have "truncate_str body_gap 500 = rstrip (slice_to (strip body_gap) (500 - 1)) @ [ellipsis]"
    by (rule truncate_long)
  then have res: "truncate_str body_gap 500 = replicate 498 97 @ [ellipsis]"
    by (simp add: st slice_to_def rs)
  have l: "length (truncate_str body_gap 500) = 499" by (simp add: res)
  have "length (take 499 body_gap @ [ellipsis]) = 500" by (simp add: len)
  with l have ne: "truncate_str body_gap 500 \<noteq> take 499 body_gap @ [ellipsis]" by auto
  from len st res l ne show ?thesis by blast
qed

section \<open>JSON values and the Python operations on them\<close>

text \<open>
  What \<open>resp.json()\<close> decodes: \<open>None\<close>, booleans, integers, floats, strings, lists and dicts.
  The code modelled here never computes with a float: it can only test whether one is zero,
  and the model keeps that of it (\<open>JFloat True\<close> is a float other than zero). A decoded dict
  has one entry per key, in the order of the document; it is an association list here, read
  with \<open>map_of\<close>. The exceptions are those of the interpreter, with the messages of
  CPython 3.11.
\<close>

datatype json =
    JNull
  | JBool bool
  | JInt int
  | JFloat bool
  | JStr pystr
  | JList "json list"
  | JDict "(pystr \<times> json) list"

text \<open>A text between apostrophes, as the messages of Python quote type names and keys.\<close>

definition quoted :: "pystr \<Rightarrow> pystr" where
  "quoted s = [39] @ s @ [39]"

fun type_name :: "json \<Rightarrow> pystr" where
  "type_name JNull = str ''NoneType''"
| "type_name (JBool b) = str ''bool''"
| "type_name (JInt i) = str ''int''"
| "type_name (JFloat nonzero) = str ''float''"
| "type_name (JStr s) = str ''str''"
| "type_name (JList xs) = str ''list''"
| "type_name (JDict kvs) = str ''dict''"

text \<open>\<open>v[key]\<close> with a string key.\<close>

fun subscript :: "json \<Rightarrow> pystr \<Rightarrow> error + json" where
  "subscript (JDict kvs) key =
     (case map_of kvs key of None \<Rightarrow> Inl (KeyError key) | Some v \<Rightarrow> Inr v)"
| "subscript (JList xs) key =
     Inl (TypeError (str ''list indices must be integers or slices, not str''))"
| "subscript (JStr s) key =
     Inl (TypeError (str ''string indices must be integers, not '' @ quoted (str ''str'')))"
| "subscript v key =
     Inl (TypeError (quoted (type_name v) @ str '' object is not subscriptable''))"

text \<open>\<open>v.get(key, dflt)\<close>; only a dict has the method.\<close>

fun dict_get :: "json \<Rightarrow> pystr \<Rightarrow> json \<Rightarrow> error + json" where
  "dict_get (JDict kvs) key dflt =
     Inr (case map_of kvs key of None \<Rightarrow> dflt | Some v \<Rightarrow> v)"
| "dict_get v key dflt =
     Inl (AttributeError (quoted (type_name v) @ str '' object has no attribute ''
            @ quoted (str ''get'')))"

text \<open>
  The items of \<open>for n in v\<close>: the elements of a list, the keys of a dict, the characters
  of a string.
\<close>

fun iterate :: "json \<Rightarrow> error + json list" where
  "iterate (JList xs) = Inr xs"
| "iterate (JDict kvs) = Inr (map (\<lambda>kv. JStr (fst kv)) kvs)"
| "iterate (JStr s) = Inr (map (\<lambda>c. JStr [c]) s)"
| "iterate v = Inl (TypeError (quoted (type_name v) @ str '' object is not iterable''))"

text \<open>The truth value of \<open>v\<close> in \<open>v or d\<close> and \<open>not v\<close>.\<close>

fun truthy :: "json \<Rightarrow> bool" where
  "truthy JNull = False"
| "truthy (JBool b) = b"
| "truthy (JInt i) = (i \<noteq> 0)"
| "truthy (JFloat nonzero) = nonzero"
| "truthy (JStr s) = (s \<noteq> [])"
| "truthy (JList xs) = (xs \<noteq> [])"
| "truthy (JDict kvs) = (kvs \<noteq> [])"

section \<open>linear_client.py\<close>

text \<open>
  \<open>LinearClient.graphql\<close> talks to the remote service: it either raises (a \<open>LinearAPIError\<close>
  for an HTTP status of 400 or more, a body that is not JSON, an error list or a missing
  \<open>data\<close> entry; whatever the HTTP library raises otherwise) or returns the \<open>data\<close> payload.
  The service is the environment of the model: a function from the request to the outcome
  of the call.
\<close>

text \<open>
  \<open>str(e)\<close> of an exception, as an f-string renders it. A \<open>KeyError\<close> shows the \<open>repr\<close> of its
  key, which for the keys this module looks up (\<open>team\<close>, \<open>projects\<close>, \<open>nodes\<close>, \<open>pageInfo\<close>,
  \<open>id\<close>, \<open>name\<close>, \<open>hasNextPage\<close>, \<open>endCursor\<close>) is the key between apostrophes. The other
  exceptions show their message.
\<close>

fun exception_str :: "error \<Rightarrow> pystr" where
  "exception_str (LinearAPIError m) = m"
| "exception_str (KeyError k) = quoted k"
| "exception_str (AttributeError m) = m"
| "exception_str (TypeError m) = m"
| "exception_str (OtherException m) = m"

text \<open>
  The \<open>Project\<close> dataclass. Its fields are annotated as strings; the constructor stores what
  the payload holds, whatever its type.
\<close>

record project =
  proj_id :: json
  proj_name :: json
  proj_url :: json
  status_name :: json

subsection \<open>\<open>list_team_projects\<close>\<close>

datatype status_field = Status | ProjectStatus

fun field_key :: "status_field \<Rightarrow> pystr" where
  "field_key Status = str ''status''"
| "field_key ProjectStatus = str ''projectStatus''"

text \<open>
  The request of one page: the query shape, the team id, the page size and the cursor
  (\<open>None\<close> at first, then whatever \<open>endCursor\<close> held).
\<close>

type_synonym projects_service =
  "status_field \<Rightarrow> pystr \<Rightarrow> int \<Rightarrow> json \<Rightarrow> error + json"

text \<open>
  One node: \<open>status_obj = n.get(field_name) or {}\<close>, then the constructor call with
  \<open>n["id"]\<close>, \<open>n["name"]\<close>, \<open>n.get("url")\<close> and
  \<open>status_obj.get("name") if isinstance(status_obj, dict) else None\<close>.
\<close>

definition node_to_project :: "status_field \<Rightarrow> json \<Rightarrow> error + project" where
  "node_to_project field_name n =
     (case dict_get n (field_key field_name) JNull of
        Inl e \<Rightarrow> Inl e
      | Inr found \<Rightarrow>
          (let status_obj = (if truthy found then found else JDict []) in
           case subscript n (str ''id'') of
             Inl e \<Rightarrow> Inl e
           | Inr i \<Rightarrow>
               (case subscript n (str ''name'') of
                  Inl e \<Rightarrow> Inl e
                | Inr nm \<Rightarrow>
                    (case dict_get n (str ''url'') JNull of
                       Inl e \<Rightarrow> Inl e
                     | Inr url \<Rightarrow>
                         Inr \<lparr>proj_id = i, proj_name = nm, proj_url = url,
                               status_name =
                                 (case status_obj of
                                    JDict kvs \<Rightarrow>
                                      (case map_of kvs (str ''name'') of
                                         None \<Rightarrow> JNull | Some v \<Rightarrow> v)
                                  | _ \<Rightarrow> JNull)\<rparr>))))"

text \<open>The inner \<open>for n in conn["nodes"]\<close> loop, appending to \<open>projects\<close>.\<close>

fun append_nodes :: "status_field \<Rightarrow> json list \<Rightarrow> project list \<Rightarrow> error + project list" where
  "append_nodes field_name [] projects = Inr projects"
| "append_nodes field_name (n # ns) projects =
     (case node_to_project field_name n of
        Inl e \<Rightarrow> Inl e
      | Inr p \<Rightarrow> append_nodes field_name ns (projects @ [p]))"

text \<open>
  One round of the \<open>for _ in range(max_pages)\<close> loop up to the test of \<open>hasNextPage\<close>: the
  call, \<open>conn = data["team"]["projects"]\<close>, the nodes, \<open>page = conn["pageInfo"]\<close>. It yields the
  projects so far and the page information.
\<close>

definition read_page ::
  "(json \<Rightarrow> error + json) \<Rightarrow> status_field \<Rightarrow> json \<Rightarrow> project list
     \<Rightarrow> error + (project list \<times> json)" where
  "read_page call field_name after projects =
     (case call after of
        Inl e \<Rightarrow> Inl e
      | Inr data \<Rightarrow>
          (case subscript data (str ''team'') of
             Inl e \<Rightarrow> Inl e
           | Inr team \<Rightarrow>
               (case subscript team (str ''projects'') of
                  Inl e \<Rightarrow> Inl e
                | Inr conn \<Rightarrow>
                    (case subscript conn (str ''nodes'') of
                       Inl e \<Rightarrow> Inl e
                     | Inr nodes \<Rightarrow>
                         (case iterate nodes of
                            Inl e \<Rightarrow> Inl e
                          | Inr ns \<Rightarrow>
                              (case append_nodes field_name ns projects of
                                 Inl e \<Rightarrow> Inl e
                               | Inr projects' \<Rightarrow>
                                   (case subscript conn (str ''pageInfo'') of
                                      Inl e \<Rightarrow> Inl e
                                    | Inr page \<Rightarrow> Inr (projects', page))))))))"

text \<open>
  The \<open>for _ in range(max_pages)\<close> loop; the third argument is the number of rounds left.
  \<open>if not page["hasNextPage"]: break\<close>, else \<open>after = page["endCursor"]\<close>.
\<close>

fun fetch_pages ::
  "(json \<Rightarrow> error + json) \<Rightarrow> status_field \<Rightarrow> nat \<Rightarrow> json \<Rightarrow> project list
     \<Rightarrow> error + project list" where
  "fetch_pages call field_name 0 after projects = Inr projects"
| "fetch_pages call field_name (Suc rounds) after projects =
     (case read_page call field_name after projects of
        Inl e \<Rightarrow> Inl e
      | Inr (projects', page) \<Rightarrow>
          (case subscript page (str ''hasNextPage'') of
             Inl e \<Rightarrow> Inl e
           | Inr has_next \<Rightarrow>
               if \<not> truthy has_next then Inr projects'
               else (case subscript page (str ''endCursor'') of
                       Inl e \<Rightarrow> Inl e
                     | Inr cursor \<Rightarrow> fetch_pages call field_name rounds cursor projects')))"

text \<open>The body of the \<open>try\<close> for one query shape.\<close>

definition attempt ::
  "projects_service \<Rightarrow> pystr \<Rightarrow> int \<Rightarrow> int \<Rightarrow> status_field \<Rightarrow> error + project list" where
  "attempt graphql team_id first max_pages field_name =
     fetch_pages (graphql field_name team_id first) field_name (nat max_pages) JNull []"

definition failed_prefix :: pystr where
  "failed_prefix = str ''Failed to query team projects (status field mismatch?): ''"

text \<open>
  The \<open>for field_name, query in queries\<close> loop: the first attempt that returns ends the
  function, an exception is kept in \<open>last_err\<close> and the next shape is tried, and after the
  last shape the error is raised with \<open>str(last_err)\<close>.
\<close>

fun try_queries ::
  "(status_field \<Rightarrow> error + project list) \<Rightarrow> status_field list \<Rightarrow> error option
     \<Rightarrow> error + project list" where
  "try_queries run [] last_err =
     Inl (LinearAPIError (failed_prefix @
        (case last_err of None \<Rightarrow> str ''None'' | Some e \<Rightarrow> exception_str e)))"
| "try_queries run (field_name # queries) last_err =
     (case run field_name of
        Inr projects \<Rightarrow> Inr projects
      | Inl e \<Rightarrow> try_queries run queries (Some e))"

definition list_team_projects ::
  "projects_service \<Rightarrow> pystr \<Rightarrow> int \<Rightarrow> int \<Rightarrow> error + project list" where
  "list_team_projects graphql team_id first max_pages =
     try_queries (attempt graphql team_id first max_pages) [Status, ProjectStatus] None"

subsection \<open>\<open>get_project_health\<close>\<close>


subsection \<open>The schema-variant fallback\<close>

lemma str_eq_iff: "str a = str b \<longleftrightarrow> a = b"
  by (simp add: str_def inj_map_eq_map inj_on_def)

lemma try_queries_two:
  "try_queries run [Status, ProjectStatus] None =
     (case run Status of
        Inr projects \<Rightarrow> Inr projects
      | Inl e1 \<Rightarrow>
          (case run ProjectStatus of
             Inr projects \<Rightarrow> Inr projects
           | Inl e2 \<Rightarrow> Inl (LinearAPIError (failed_prefix @ exception_str e2))))"
  by (simp split: sum.splits)

lemma attempt_cong:
  "graphql' field_name = graphql field_name \<Longrightarrow>
     attempt graphql' team_id first max_pages field_name
       = attempt graphql team_id first max_pages field_name"
  by (simp add: attempt_def)

text \<open>
  C8, as amended. The project listing runs the query shape with the field \<open>status\<close> first.
  When that attempt returns, its result is the result and the second shape is not consulted.
  When it raises, whatever the exception, the shape with the field \<open>projectStatus\<close> is run and
  its result returned. When both raise, a single \<open>LinearAPIError\<close> is raised whose message is
  the fixed prefix followed by the text of the second exception only.
\<close>

theorem list_team_projects_fallback:
  "(case attempt graphql team_id first max_pages Status of
      Inr projects \<Rightarrow>
        (\<forall>graphql'. graphql' Status = graphql Status
           \<longrightarrow> list_team_projects graphql' team_id first max_pages = Inr projects)
    | Inl e1 \<Rightarrow>
        (case attempt graphql team_id first max_pages ProjectStatus of
           Inr projects \<Rightarrow> list_team_projects graphql team_id first max_pages = Inr projects
         | Inl e2 \<Rightarrow>
             list_team_projects graphql team_id first max_pages
               = Inl (LinearAPIError (failed_prefix @ exception_str e2))))"
proof (cases "attempt graphql team_id first max_pages Status")
  case (Inr projects)
  have "list_team_projects graphql' team_id first max_pages = Inr projects"
    if "graphql' Status = graphql Status" for graphql'
  proof -
    have "attempt graphql' team_id first max_pages Status = Inr projects"
      using attempt_cong [of graphql' Status graphql team_id first max_pages] that Inr by simp
    then show ?thesis by (simp add: list_team_projects_def)
  qed
  with Inr show ?thesis by simp
next
  case (Inl e1)
  then show ?thesis
    unfolding list_team_projects_def try_queries_two by (simp split: sum.splits)
qed

text \<open>The payload of one page of projects.\<close>

definition page_payload :: "json list \<Rightarrow> bool \<Rightarrow> json \<Rightarrow> json" where
  "page_payload nodes has_next cursor =
     JDict [(str ''team'',
       JDict [(str ''projects'',
         JDict [(str ''nodes'', JList nodes),
                (str ''pageInfo'',
                   JDict [(str ''hasNextPage'', JBool has_next),
                          (str ''endCursor'', cursor)])])])]"

lemma read_page_payload:
  "call after = Inr (page_payload nodes has_next cursor) \<Longrightarrow>
     read_page call field_name after projects =
       (case append_nodes field_name nodes projects of
          Inl e \<Rightarrow> Inl e
        | Inr projects' \<Rightarrow>
            Inr (projects', JDict [(str ''hasNextPage'', JBool has_next),
                                   (str ''endCursor'', cursor)]))"
  by (simp add: read_page_def page_payload_def str_def split: sum.splits)

text \<open>Two services on which both shapes fail; they differ in the error of the first shape.\<close>

definition failing_service :: "pystr \<Rightarrow> projects_service" where
  "failing_service first_message field_name team_id first after =
     (case field_name of
        Status \<Rightarrow> Inl (LinearAPIError first_message)
      | ProjectStatus \<Rightarrow> Inl (LinearAPIError (str ''no field projectStatus'')))"

text \<open>A service that knows only the second shape, and serves two pages.\<close>

definition node_example :: "pystr \<Rightarrow> json" where
  "node_example i =
     JDict [(str ''id'', JStr i), (str ''name'', JStr (str ''Apollo'')),
            (str ''projectStatus'', JDict [(str ''name'', JStr (str ''QA''))])]"

definition second_shape_service :: projects_service where
  "second_shape_service field_name team_id first after =
     (case field_name of
        Status \<Rightarrow> Inl (LinearAPIError (str ''no field status''))
      | ProjectStatus \<Rightarrow>
          (if after = JNull
           then Inr (page_payload [node_example (str ''p1'')] True (JStr (str ''c1'')))
           else Inr (page_payload [node_example (str ''p2'')] False JNull)))"

definition first_shape_service :: projects_service where
  "first_shape_service field_name team_id first after =
     (case field_name of
        Status \<Rightarrow> Inr (page_payload [] False JNull)
      | ProjectStatus \<Rightarrow> Inl (OtherException (str ''unreachable'')))"

text \<open>A service whose answer to either shape is \<open>{"team": null}\<close>.\<close>

definition null_team_service :: projects_service where
  "null_team_service field_name team_id first after = Inr (JDict [(str ''team'', JNull)])"

lemma fetch_pages_numeral:
  "fetch_pages call field_name (numeral k) after projects =
     (case read_page call field_name after projects of
        Inl e \<Rightarrow> Inl e
      | Inr (projects', page) \<Rightarrow>
          (case subscript page (str ''hasNextPage'') of
             Inl e \<Rightarrow> Inl e
           | Inr has_next \<Rightarrow>
               if \<not> truthy has_next then Inr projects'
               else (case subscript page (str ''endCursor'') of
                       Inl e \<Rightarrow> Inl e
                     | Inr cursor \<Rightarrow>
                         fetch_pages call field_name (pred_numeral k) cursor projects')))"
  by (simp only: numeral_eq_Suc fetch_pages.simps)

lemma node_example_project:
  "node_to_project ProjectStatus (node_example i) =
     Inr \<lparr>proj_id = JStr i, proj_name = JStr (str ''Apollo''), proj_url = JNull,
          status_name = JStr (str ''QA'')\<rparr>"
  by (simp add: node_to_project_def node_example_def str_def)

theorem list_team_projects_fallback_witness:
  "list_team_projects first_shape_service (str ''team'') 50 20 = Inr []
   \<and> list_team_projects second_shape_service (str ''team'') 50 20 =
       Inr [\<lparr>proj_id = JStr (str ''p1''), proj_name = JStr (str ''Apollo''), proj_url = JNull,
              status_name = JStr (str ''QA'')\<rparr>,
            \<lparr>proj_id = JStr (str ''p2''), proj_name = JStr (str ''Apollo''), proj_url = JNull,
              status_name = JStr (str ''QA'')\<rparr>]"
proof -
  have p1: "read_page (first_shape_service Status (str ''team'') 50) Status JNull [] =
      Inr ([], JDict [(str ''hasNextPage'', JBool False), (str ''endCursor'', JNull)])"
    by (simp add: read_page_payload [of _ _ "[]" False JNull] first_shape_service_def)
  have a1: "attempt first_shape_service (str ''team'') 50 20 Status = Inr []"
    by (simp add: attempt_def fetch_pages_numeral p1)
  have "\<forall>graphql'. graphql' Status = first_shape_service Status
           \<longrightarrow> list_team_projects graphql' (str ''team'') 50 20 = Inr []"
    using list_team_projects_fallback [of first_shape_service "str ''team''" 50 20]
    unfolding a1 by simp
  then have r1: "list_team_projects first_shape_service (str ''team'') 50 20 = Inr []"
    by blast
  have b1: "attempt second_shape_service (str ''team'') 50 20 Status
      = Inl (LinearAPIError (str ''no field status''))"
    by (simp add: attempt_def second_shape_service_def fetch_pages_numeral read_page_def)
  have q1: "read_page (second_shape_service ProjectStatus (str ''team'') 50) ProjectStatus
        JNull projects =
      Inr (projects @ [\<lparr>proj_id = JStr (str ''p1''), proj_name = JStr (str ''Apollo''),
                         proj_url = JNull, status_name = JStr (str ''QA'')\<rparr>],
           JDict [(str ''hasNextPage'', JBool True), (str ''endCursor'', JStr (str ''c1''))])"
    for projects
    by (simp add: read_page_payload [of _ _ "[node_example (str ''p1'')]" True "JStr (str ''c1'')"]
        second_shape_service_def node_example_project)
  have q2: "read_page (second_shape_service ProjectStatus (str ''team'') 50) ProjectStatus
        (JStr (str ''c1'')) projects =
      Inr (projects @ [\<lparr>proj_id = JStr (str ''p2''), proj_name = JStr (str ''Apollo''),
                         proj_url = JNull, status_name = JStr (str ''QA'')\<rparr>],
           JDict [(str ''hasNextPage'', JBool False), (str ''endCursor'', JNull)])"
    for projects
    by (simp add: read_page_payload [of _ _ "[node_example (str ''p2'')]" False JNull]
        second_shape_service_def node_example_project)
  have b2: "attempt second_shape_service (str ''team'') 50 20 ProjectStatus =
       Inr [\<lparr>proj_id = JStr (str ''p1''), proj_name = JStr (str ''Apollo''), proj_url = JNull,
              status_name = JStr (str ''QA'')\<rparr>,
            \<lparr>proj_id = JStr (str ''p2''), proj_name = JStr (str ''Apollo''), proj_url = JNull,
              status_name = JStr (str ''QA'')\<rparr>]"
    by (simp add: attempt_def fetch_pages_numeral q1 q2 str_eq_iff)
  have r2: "list_team_projects second_shape_service (str ''team'') 50 20 =
       Inr [\<lparr>proj_id = JStr (str ''p1''), proj_name = JStr (str ''Apollo''), proj_url = JNull,
              status_name = JStr (str ''QA'')\<rparr>,
            \<lparr>proj_id = JStr (str ''p2''), proj_name = JStr (str ''Apollo''), proj_url = JNull,
              status_name = JStr (str ''QA'')\<rparr>]"
    using list_team_projects_fallback [of second_shape_service "str ''team''" 50 20]
    unfolding b1 b2 by simp
  from r1 r2 show ?thesis by (rule conjI)
qed

text \<open>
  The claim as written has the error of the double failure name both attempts. The error
  the source raises carries the text of the second exception only: the two services below
  fail differently on the first shape and yield the same error.
\<close>

theorem list_team_projects_counterexample:
  "attempt (failing_service (str ''A'')) (str ''team'') 50 20 Status
     = Inl (LinearAPIError (str ''A''))
   \<and> attempt (failing_service (str ''B'')) (str ''team'') 50 20 Status
     = Inl (LinearAPIError (str ''B''))
   \<and> list_team_projects (failing_service (str ''A'')) (str ''team'') 50 20
     = Inl (LinearAPIError (failed_prefix @ str ''no field projectStatus''))
   \<and> list_team_projects (failing_service (str ''B'')) (str ''team'') 50 20
     = Inl (LinearAPIError (failed_prefix @ str ''no field projectStatus''))"
  by (simp add: list_team_projects_def attempt_def failing_service_def fetch_pages_numeral
      read_page_def)

text \<open>
  A payload of the wrong form fails an attempt like any other error, and the text of the
  exception of Python ends up in the message: for \<open>{"team": null}\<close> it is the \<open>TypeError\<close> of
  \<open>None["projects"]\<close>, for a payload with no \<open>team\<close> entry the \<open>KeyError\<close> of the key.
\<close>

lemma list_team_projects_null_team:
  "list_team_projects null_team_service (str ''team'') 50 20 =
     Inl (LinearAPIError (failed_prefix
        @ quoted (str ''NoneType'') @ str '' object is not subscriptable''))"
  by (simp add: list_team_projects_def attempt_def null_team_service_def fetch_pages_numeral
      read_page_def)

lemma list_team_projects_no_team:
  "list_team_projects (\<lambda>field_name team_id first after. Inr (JDict [])) (str ''team'') 50 20 =
     Inl (LinearAPIError (failed_prefix @ quoted (str ''team'')))"
  by (simp add: list_team_projects_def attempt_def fetch_pages_numeral read_page_def)

subsection \<open>The best-effort health read\<close>







section \<open>The fact document\<close>

text \<open>
  The fact document is a nested \<open>dict\<close>. The records below hold the entries that the
  deterministic renderer and the update router read; the other entries (cycle windows,
  comments, history, flags) do not reach either function.
\<close>

record issue_fact =
  issue_key :: "pystr option"
  issue_title :: pystr
  issue_state :: "pystr option"
  issue_assignee :: "pystr option"

record project_fact =
  pf_id :: pystr
  pf_name :: pystr
  pf_url :: "pystr option"
  pf_status :: "pystr option"
  last_week_issues :: "issue_fact list"
  this_week_issues :: "issue_fact list"

record fact_document =
  team_name :: pystr
  generated_at_utc :: pystr
  projects :: "project_fact list"

section \<open>cli.py: the update router\<close>

text \<open>The line feed U+000A, the only character at which \<open>^\<close>, \<open>$\<close> and \<open>.\<close> of \<open>re\<close> break lines.\<close>

definition nl :: nat where
  "nl = 10"

text \<open>\<open>s.replace(old, new)\<close> for single characters.\<close>

definition replace_char :: "nat \<Rightarrow> nat \<Rightarrow> pystr \<Rightarrow> pystr" where
  "replace_char old new s = map (\<lambda>c. if c = old then new else c) s"

text \<open>
  \<open>_normalize_name\<close>: U+2011 (non-breaking hyphen), U+2013 (en dash) and U+2014 (em dash)
  become the ASCII hyphen U+002D, then the name is trimmed.
\<close>

definition normalize_name :: "pystr \<Rightarrow> pystr" where
  "normalize_name name = strip (replace_char 8212 45 (replace_char 8211 45 (replace_char 8209 45 name)))"

text \<open>
  \<open>re.split(r"^## (.+?)$", markdown, flags=re.MULTILINE)\<close>. The pattern matches at the start
  of a line that begins with \<open>## \<close> followed by at least one character other than a line
  feed, and the match runs to the end of that line: the lazy group must reach \<open>$\<close>, and \<open>.\<close>
  does not cross a line feed. The scan keeps whether it stands at the start of a line, the
  piece collected since the last match, and the rest of the text; a match closes the piece
  and emits the captured group after it.
\<close>

definition heading_here :: "pystr \<Rightarrow> bool" where
  "heading_here s \<longleftrightarrow>
     take 3 s = str ''## '' \<and> (case drop 3 s of [] \<Rightarrow> False | c # cs \<Rightarrow> c \<noteq> nl)"

lemma heading_here_length:
  assumes "heading_here s"
  shows "3 < length s"
proof -
  from assms have "drop 3 s \<noteq> []"
    by (auto simp: heading_here_def split: list.splits)
  then show ?thesis by simp
qed

function re_split_scan :: "bool \<Rightarrow> pystr \<Rightarrow> pystr \<Rightarrow> pystr list" where
  "re_split_scan bol piece s =
     (if bol \<and> heading_here s then
        piece # takeWhile (\<lambda>c. c \<noteq> nl) (drop 3 s)
          # re_split_scan False [] (dropWhile (\<lambda>c. c \<noteq> nl) (drop 3 s))
      else (case s of
              [] \<Rightarrow> [piece]
            | c # cs \<Rightarrow> re_split_scan (c = nl) (piece @ [c]) cs))"
  by pat_completeness auto
termination
proof (relation "measure (\<lambda>(bol, piece, s). length s)")
  show "wf (measure (\<lambda>(bol, piece, s). length s))" by simp
next
  fix bol :: bool and piece s :: pystr
  assume "bol \<and> heading_here s"
  then have "3 < length s" by (simp add: heading_here_length)
  moreover have "length (dropWhile (\<lambda>c. c \<noteq> nl) (drop 3 s)) \<le> length (drop 3 s)"
    by (rule length_dropWhile_le)
  ultimately show "((False, [], dropWhile (\<lambda>c. c \<noteq> nl) (drop 3 s)), (bol, piece, s))
      \<in> measure (\<lambda>(bol, piece, s). length s)"
    by simp
next
  fix bol :: bool and piece s :: pystr and c cs
  assume "s = c # cs"
  then show "((c = nl, piece @ [c], cs), (bol, piece, s)) \<in> measure (\<lambda>(bol, piece, s). length s)"
    by simp
qed

declare re_split_scan.simps [simp del]

definition re_split :: "pystr \<Rightarrow> pystr list" where
  "re_split markdown = re_split_scan True [] markdown"

record project_update =
  upd_project_id :: pystr
  upd_project_name :: pystr
  upd_body :: pystr

text \<open>
  The \<open>name_to_info\<close> dictionary: a later project with the same normalized name overwrites an
  earlier one.
\<close>

definition name_to_info :: "project_fact list \<Rightarrow> (pystr \<rightharpoonup> pystr \<times> pystr)" where
  "name_to_info ps =
     fold (\<lambda>p m. m(normalize_name (pf_name p) \<mapsto> (pf_id p, pf_name p))) ps Map.empty"

text \<open>
  The \<open>while i < len(sections) - 1\<close> loop. \<open>info and content\<close> holds when the lookup found an
  entry and the trimmed body is not empty.
\<close>

function parse_loop ::
  "(pystr \<rightharpoonup> pystr \<times> pystr) \<Rightarrow> pystr list \<Rightarrow> nat \<Rightarrow> project_update list
     \<Rightarrow> project_update list" where
  "parse_loop info sections i results =
     (if int i < int (length sections) - 1 then
        (let project_name_raw = strip (sections ! i);
             project_name_normalized = normalize_name project_name_raw;
             content = strip (sections ! (i + 1))
         in parse_loop info sections (i + 2)
              (case info project_name_normalized of
                 None \<Rightarrow> results
               | Some (project_id, original_name) \<Rightarrow>
                   if content \<noteq> [] then
                     results @ [\<lparr>upd_project_id = project_id,
                                  upd_project_name = original_name, upd_body = content\<rparr>]
                   else results))
      else results)"
  by pat_completeness auto
termination
  by (relation "measure (\<lambda>(info, sections, i, results). length sections - i)") auto

declare parse_loop.simps [simp del]

definition parse_project_updates :: "pystr \<Rightarrow> fact_document \<Rightarrow> project_update list" where
  "parse_project_updates markdown facts =
     parse_loop (name_to_info (projects facts)) (re_split markdown) 1 []"

subsection \<open>Normalization\<close>

definition dash_to_hyphen :: "nat \<Rightarrow> nat" where
  "dash_to_hyphen c = (if c = 8209 \<or> c = 8211 \<or> c = 8212 then 45 else c)"

lemma replace_dashes:
  "replace_char 8212 45 (replace_char 8211 45 (replace_char 8209 45 name))
     = map dash_to_hyphen name"
  by (induction name) (simp_all add: replace_char_def dash_to_hyphen_def)

lemma normalize_name_map: "normalize_name name = strip (map dash_to_hyphen name)"
  by (simp add: normalize_name_def replace_dashes)

lemma is_space_dash_to_hyphen: "is_space (dash_to_hyphen c) = is_space c"
  by (auto simp: is_space_def dash_to_hyphen_def)

lemma lstrip_map:
  assumes "\<And>c. is_space (f c) = is_space c"
  shows "lstrip (map f s) = map f (lstrip s)"
  by (induction s) (simp_all add: lstrip_def assms)

lemma rstrip_map:
  assumes "\<And>c. is_space (f c) = is_space c"
  shows "rstrip (map f s) = map f (rstrip s)"
proof -
  have "dropWhile is_space (map f xs) = map f (dropWhile is_space xs)" for xs
    by (induction xs) (simp_all add: assms)
  then show ?thesis by (simp add: rstrip_def rev_map)
qed

lemma strip_map:
  assumes "\<And>c. is_space (f c) = is_space c"
  shows "strip (map f s) = map f (strip s)"
  by (simp add: strip_def lstrip_map [OF assms] rstrip_map [OF assms])

lemma normalize_name_strip_map: "normalize_name name = map dash_to_hyphen (strip name)"
  by (simp add: normalize_name_map strip_map is_space_dash_to_hyphen)

lemma normalize_strip: "normalize_name (strip name) = normalize_name name"
  by (simp add: normalize_name_strip_map strip_idem)

lemma normalize_dashes: "normalize_name (map dash_to_hyphen name) = normalize_name name"
proof -
  have "map dash_to_hyphen (map dash_to_hyphen name) = map dash_to_hyphen name"
    by (induction name) (simp_all add: dash_to_hyphen_def)
  then show ?thesis by (simp only: normalize_name_map)
qed

text \<open>
  The normalization knows three dash characters. Other characters that look like a hyphen,
  such as U+2010 (hyphen) and U+2212 (minus sign), stay as they are.
\<close>

lemma normalize_name_other_hyphens:
  "normalize_name [65, 8208, 66] = [65, 8208, 66] \<and> normalize_name [65, 8722, 66] = [65, 8722, 66]"
  by (simp add: normalize_name_strip_map strip_def lstrip_def rstrip_def is_space_def
      dash_to_hyphen_def)

subsection \<open>The pieces of the split\<close>

lemma heading_here_Nil: "\<not> heading_here []"
  by (simp add: heading_here_def str_def)

lemma re_split_scan_Nil: "re_split_scan bol piece [] = [piece]"
  by (subst re_split_scan.simps) (simp add: heading_here_Nil)

lemma re_split_scan_heading:
  "bol \<Longrightarrow> heading_here s \<Longrightarrow>
     re_split_scan bol piece s =
       piece # takeWhile (\<lambda>c. c \<noteq> nl) (drop 3 s)
         # re_split_scan False [] (dropWhile (\<lambda>c. c \<noteq> nl) (drop 3 s))"
  by (subst re_split_scan.simps) simp

lemma re_split_scan_Cons:
  "\<not> (bol \<and> heading_here (c # cs)) \<Longrightarrow>
     re_split_scan bol piece (c # cs) = re_split_scan (c = nl) (piece @ [c]) cs"
  by (subst re_split_scan.simps) auto

lemma re_split_scan_odd: "odd (length (re_split_scan bol piece s))"
proof (induction bol piece s rule: re_split_scan.induct)
  case (1 bol piece s)
  show ?case
  proof (cases "bol \<and> heading_here s")
    case True
    then show ?thesis using "1.IH"(1) by (simp add: re_split_scan_heading)
  next
    case False
    show ?thesis
    proof (cases s)
      case Nil
      then show ?thesis by (simp add: re_split_scan_Nil)
    next
      case (Cons c cs)
      have "re_split_scan bol piece (c # cs) = re_split_scan (c = nl) (piece @ [c]) cs"
        using False Cons by (intro re_split_scan_Cons) simp
      then show ?thesis using "1.IH"(2) [OF False Cons] Cons by simp
    qed
  qed
qed

fun pairs_of :: "'a list \<Rightarrow> ('a \<times> 'a) list" where
  "pairs_of (h # b # rest) = (h, b) # pairs_of rest"
| "pairs_of [] = []"
| "pairs_of [h] = []"

lemma length_pairs_of: "length (pairs_of xs) = length xs div 2"
  by (induction xs rule: pairs_of.induct) simp_all

text \<open>The heading and body pieces after the preamble, two by two.\<close>

definition heading_body_pairs :: "pystr list \<Rightarrow> (pystr \<times> pystr) list" where
  "heading_body_pairs sections = pairs_of (tl sections)"

lemma re_split_length:
  "length (re_split markdown) = 2 * length (heading_body_pairs (re_split markdown)) + 1"
proof -
  have "odd (length (re_split markdown))" by (simp add: re_split_def re_split_scan_odd)
  then show ?thesis
    by (auto simp: heading_body_pairs_def length_pairs_of elim!: oddE)
qed

subsection \<open>The lookup and the loop\<close>

lemma name_to_info_find:
  "name_to_info ps k =
     map_option (\<lambda>p. (pf_id p, pf_name p))
       (find (\<lambda>p. normalize_name (pf_name p) = k) (rev ps))"
  by (induction ps rule: rev_induct) (simp_all add: name_to_info_def)

definition emit :: "(pystr \<rightharpoonup> pystr \<times> pystr) \<Rightarrow> pystr \<times> pystr \<Rightarrow> project_update list" where
  "emit info hb =
     (case info (normalize_name (strip (fst hb))) of
        None \<Rightarrow> []
      | Some (project_id, original_name) \<Rightarrow>
          if strip (snd hb) \<noteq> [] then
            [\<lparr>upd_project_id = project_id, upd_project_name = original_name,
              upd_body = strip (snd hb)\<rparr>]
          else [])"

lemma parse_loop_pairs:
  "parse_loop info sections i results
     = results @ concat (map (emit info) (pairs_of (drop i sections)))"
proof (induction info sections i results rule: parse_loop.induct)
  case (1 info sections i results)
  show ?case
  proof (cases "int i < int (length sections) - 1")
    case True
    then have i: "i < length sections" "Suc i < length sections" by auto
    have d: "drop i sections = sections ! i # sections ! (i + 1) # drop (i + 2) sections"
      using i by (simp add: Cons_nth_drop_Suc)
    let ?new = "case info (normalize_name (strip (sections ! i))) of
                 None \<Rightarrow> results
               | Some (project_id, original_name) \<Rightarrow>
                   if strip (sections ! (i + 1)) \<noteq> [] then
                     results @ [\<lparr>upd_project_id = project_id,
                                  upd_project_name = original_name,
                                  upd_body = strip (sections ! (i + 1))\<rparr>]
                   else results"
    have step: "parse_loop info sections i results = parse_loop info sections (i + 2) ?new"
      by (subst parse_loop.simps) (simp only: True if_True Let_def)
    have new: "?new = results @ emit info (sections ! i, sections ! (i + 1))"
      by (simp add: emit_def split: option.splits prod.splits)
    have "parse_loop info sections (i + 2) ?new
        = ?new @ concat (map (emit info) (pairs_of (drop (i + 2) sections)))"
      by (rule "1.IH" [OF True refl refl refl])
    with step new show ?thesis by (simp add: d)
  next
    case False
    then have "length (drop i sections) \<le> 1" by auto
    then have "pairs_of (drop i sections) = []"
      by (cases "drop i sections" rule: pairs_of.cases) simp_all
    then show ?thesis using False by (subst parse_loop.simps) simp
  qed
qed


subsection \<open>What the router emits\<close>

text \<open>
  The specification's reading of the router. A heading matches a project when both have the
  same normalized name; of several projects with that normalized name the last one of the
  fact document stands in the dictionary.
\<close>

definition matching_project :: "fact_document \<Rightarrow> pystr \<Rightarrow> project_fact option" where
  "matching_project facts heading =
     find (\<lambda>p. normalize_name (pf_name p) = normalize_name heading) (rev (projects facts))"

definition routed :: "fact_document \<Rightarrow> pystr \<times> pystr \<Rightarrow> project_update list" where
  "routed facts hb =
     (case matching_project facts (fst hb) of
        None \<Rightarrow> []
      | Some p \<Rightarrow>
          if strip (snd hb) = [] then []
          else [\<lparr>upd_project_id = pf_id p, upd_project_name = pf_name p,
                 upd_body = strip (snd hb)\<rparr>])"

lemma emit_routed: "emit (name_to_info (projects facts)) hb = routed facts hb"
  by (cases "matching_project facts (fst hb)")
    (simp_all add: emit_def routed_def name_to_info_find normalize_strip matching_project_def)

lemma parse_project_updates_routed:
  "parse_project_updates markdown facts
     = concat (map (routed facts) (heading_body_pairs (re_split markdown)))"
proof -
  have "drop 1 (re_split markdown) = tl (re_split markdown)"
    by (simp add: drop_Suc)
  moreover have "emit (name_to_info (projects facts)) = routed facts"
    by (rule ext) (rule emit_routed)
  ultimately show ?thesis
    by (simp add: parse_project_updates_def parse_loop_pairs heading_body_pairs_def)
qed

lemma matching_project_None:
  "matching_project facts h = None
     \<longleftrightarrow> \<not> (\<exists>p\<in>set (projects facts). normalize_name (pf_name p) = normalize_name h)"
  by (auto simp: matching_project_def find_None_iff)

lemma matching_project_Some:
  "matching_project facts h = Some p
     \<Longrightarrow> p \<in> set (projects facts) \<and> normalize_name (pf_name p) = normalize_name h"
  using find_Some_mem [of "\<lambda>p. normalize_name (pf_name p) = normalize_name h"
      "rev (projects facts)" p]
  by (simp add: matching_project_def)

lemma routed_nonempty:
  "routed facts (h, b) \<noteq> []
     \<longleftrightarrow> (\<exists>p\<in>set (projects facts). normalize_name (pf_name p) = normalize_name h)
          \<and> strip b \<noteq> []"
proof (cases "matching_project facts h")
  case None
  then show ?thesis using matching_project_None [of facts h] by (simp add: routed_def)
next
  case (Some p)
  have "\<exists>p\<in>set (projects facts). normalize_name (pf_name p) = normalize_name h"
    using matching_project_Some [OF Some] by blast
  then show ?thesis using Some by (simp add: routed_def)
qed

lemma routed_entry:
  assumes "u \<in> set (routed facts (h, b))"
  shows "upd_body u = strip b
       \<and> (\<exists>p\<in>set (projects facts). normalize_name (pf_name p) = normalize_name h
             \<and> upd_project_id u = pf_id p \<and> upd_project_name u = pf_name p)"
proof (cases "matching_project facts h")
  case None
  with assms show ?thesis by (simp add: routed_def)
next
  case (Some p)
  with assms have "u = \<lparr>upd_project_id = pf_id p, upd_project_name = pf_name p,
      upd_body = strip b\<rparr>"
    by (simp add: routed_def split: if_splits)
  with matching_project_Some [OF Some] show ?thesis by auto
qed

subsection \<open>The split, line by line\<close>

text \<open>
  A text is a sequence of lines, each closed by a line feed, and a last line that is not.
  Seen line by line, the split closes the current piece at every line that is a heading
  and starts the next piece with the line feed that ends the heading.
\<close>

definition is_heading :: "pystr \<Rightarrow> bool" where
  "is_heading l \<longleftrightarrow> take 3 l = str ''## '' \<and> 3 < length l"

definition unlines :: "pystr list \<Rightarrow> pystr" where
  "unlines ls = concat (map (\<lambda>l. l @ [nl]) ls)"

fun line_sections :: "pystr \<Rightarrow> pystr list \<Rightarrow> pystr \<Rightarrow> pystr list" where
  "line_sections piece [] final =
     (if is_heading final then [piece, drop 3 final, []] else [piece @ final])"
| "line_sections piece (l # ls) final =
     (if is_heading l then piece # drop 3 l # line_sections [nl] ls final
      else line_sections (piece @ l @ [nl]) ls final)"

lemma unlines_Nil: "unlines [] = []"
  by (simp add: unlines_def)

lemma unlines_Cons: "unlines (l # ls) = l @ nl # unlines ls"
  by (simp add: unlines_def)

lemma unlines_append: "unlines (xs @ ys) = unlines xs @ unlines ys"
  by (simp add: unlines_def)

lemma nl_not_in_prefix: "nl \<notin> set (str ''## '')"
  by (simp add: str_def nl_def)

lemma heading_here_line:
  assumes "nl \<notin> set l"
  shows "heading_here (l @ nl # rest) \<longleftrightarrow> is_heading l"
proof -
  consider "length l < 3" | "length l = 3" | "3 < length l" by linarith
  then show ?thesis
  proof cases
    case 1
    then have "nl \<in> set (take 3 (l @ nl # rest))"
      by (cases "3 - length l") auto
    then have "take 3 (l @ nl # rest) \<noteq> str ''## ''"
      using nl_not_in_prefix by metis
    then show ?thesis using 1 by (simp add: heading_here_def is_heading_def)
  next
    case 2
    then show ?thesis by (simp add: heading_here_def is_heading_def)
  next
    case 3
    then obtain c cs where d: "drop 3 l = c # cs"
      by (cases "drop 3 l") auto
    then have "c \<in> set l" by (metis in_set_dropD list.set_intros(1))
    with assms have "c \<noteq> nl" by auto
    with 3 d show ?thesis by (simp add: heading_here_def is_heading_def)
  qed
qed

lemma heading_here_final:
  assumes "nl \<notin> set l"
  shows "heading_here l \<longleftrightarrow> is_heading l"
proof (cases "drop 3 l")
  case Nil
  then show ?thesis by (simp add: heading_here_def is_heading_def)
next
  case (Cons c cs)
  then have "c \<in> set l" by (metis in_set_dropD list.set_intros(1))
  with assms have "c \<noteq> nl" by auto
  moreover from Cons have "3 < length l" by (metis drop_eq_Nil list.distinct(1) not_le)
  ultimately show ?thesis using Cons by (simp add: heading_here_def is_heading_def)
qed

lemma scan_within_line:
  "nl \<notin> set xs \<Longrightarrow>
     re_split_scan False piece (xs @ rest) = re_split_scan False (piece @ xs) rest"
proof (induction xs arbitrary: piece)
  case Nil
  then show ?case by simp
next
  case (Cons c cs)
  then have "c \<noteq> nl" "nl \<notin> set cs" by auto
  have "re_split_scan False piece ((c # cs) @ rest)
      = re_split_scan (c = nl) (piece @ [c]) (cs @ rest)"
    by (simp add: re_split_scan_Cons)
  also have "\<dots> = re_split_scan False ((piece @ [c]) @ cs) rest"
    using \<open>c \<noteq> nl\<close> Cons.IH [OF \<open>nl \<notin> set cs\<close>] by simp
  finally show ?case by simp
qed

lemma scan_line_feed:
  "re_split_scan False piece (nl # rest) = re_split_scan True (piece @ [nl]) rest"
  by (simp add: re_split_scan_Cons)

lemma scan_plain_line:
  assumes "nl \<notin> set l" "\<not> is_heading l"
  shows "re_split_scan True piece (l @ nl # rest) = re_split_scan True (piece @ l @ [nl]) rest"
proof (cases l)
  case Nil
  have "\<not> heading_here (nl # rest)"
    using heading_here_line [of "[]" rest] assms(2) by (simp add: Nil)
  then show ?thesis using Nil by (simp add: re_split_scan_Cons)
next
  case (Cons c cs)
  then have c: "c \<noteq> nl" "nl \<notin> set cs" using assms(1) by auto
  have "\<not> heading_here ((c # cs) @ nl # rest)"
    using heading_here_line [OF assms(1), of rest] assms(2) Cons by simp
  then have "re_split_scan True piece ((c # cs) @ nl # rest)
      = re_split_scan (c = nl) (piece @ [c]) (cs @ nl # rest)"
    by (simp add: re_split_scan_Cons)
  also have "\<dots> = re_split_scan False ((piece @ [c]) @ cs) (nl # rest)"
    using c scan_within_line [of cs "piece @ [c]" "nl # rest"] by simp
  also have "\<dots> = re_split_scan True (((piece @ [c]) @ cs) @ [nl]) rest"
    by (rule scan_line_feed)
  finally show ?thesis using Cons by simp
qed

lemma scan_heading_line:
  assumes "nl \<notin> set l" "is_heading l"
  shows "re_split_scan True piece (l @ nl # rest)
       = piece # drop 3 l # re_split_scan True [nl] rest"
proof -
  have h: "heading_here (l @ nl # rest)"
    using heading_here_line [OF assms(1)] assms(2) by simp
  have len: "3 < length l" using assms(2) by (simp add: is_heading_def)
  then have d: "drop 3 (l @ nl # rest) = drop 3 l @ nl # rest" by simp
  have no: "\<And>c. c \<in> set (drop 3 l) \<Longrightarrow> c \<noteq> nl"
    using assms(1) by (metis in_set_dropD)
  have t: "takeWhile (\<lambda>c. c \<noteq> nl) (drop 3 l @ nl # rest) = drop 3 l"
    using no by (simp add: takeWhile_append2)
  have w: "dropWhile (\<lambda>c. c \<noteq> nl) (drop 3 l @ nl # rest) = nl # rest"
    using no by (simp add: dropWhile_append2)
  have "re_split_scan True piece (l @ nl # rest)
      = piece # drop 3 l # re_split_scan False [] (nl # rest)"
    using re_split_scan_heading [OF TrueI h, of piece] by (simp only: d t w)
  then show ?thesis by (simp add: scan_line_feed)
qed

lemma scan_final_line:
  assumes "nl \<notin> set l"
  shows "re_split_scan True piece l
       = (if is_heading l then [piece, drop 3 l, []] else [piece @ l])"
proof (cases "is_heading l")
  case True
  then have h: "heading_here l" using heading_here_final [OF assms] by simp
  have no: "\<And>c. c \<in> set (drop 3 l) \<Longrightarrow> c \<noteq> nl"
    using assms by (metis in_set_dropD)
  then have t: "takeWhile (\<lambda>c. c \<noteq> nl) (drop 3 l) = drop 3 l"
    and w: "dropWhile (\<lambda>c. c \<noteq> nl) (drop 3 l) = []"
    by simp_all
  show ?thesis
    using re_split_scan_heading [OF TrueI h, of piece] True
    by (simp only: t w re_split_scan_Nil if_True)
next
  case False
  show ?thesis
  proof (cases l)
    case Nil
    then show ?thesis using False by (simp add: re_split_scan_Nil)
  next
    case (Cons c cs)
    then have c: "c \<noteq> nl" "nl \<notin> set cs" using assms by auto
    have "\<not> heading_here (c # cs)"
      using heading_here_final [OF assms] False Cons by simp
    then have "re_split_scan True piece (c # cs) = re_split_scan (c = nl) (piece @ [c]) cs"
      by (simp add: re_split_scan_Cons)
    also have "\<dots> = re_split_scan False ((piece @ [c]) @ cs) []"
      using c scan_within_line [of cs "piece @ [c]" "[]"] by simp
    finally show ?thesis using Cons False by (simp add: re_split_scan_Nil)
  qed
qed

lemma scan_lines:
  assumes "\<forall>l\<in>set ls. nl \<notin> set l" "nl \<notin> set final"
  shows "re_split_scan True piece (unlines ls @ final) = line_sections piece ls final"
  using assms(1)
proof (induction ls arbitrary: piece)
  case Nil
  then show ?case using scan_final_line [OF assms(2)] by (simp add: unlines_Nil)
next
  case (Cons l ls)
  then have l: "nl \<notin> set l" and ls: "\<forall>l\<in>set ls. nl \<notin> set l" by auto
  show ?case
  proof (cases "is_heading l")
    case True
    then show ?thesis
      using scan_heading_line [OF l True, of piece "unlines ls @ final"] Cons.IH [OF ls]
      by (simp add: unlines_Cons)
  next
    case False
    then show ?thesis
      using scan_plain_line [OF l False, of piece "unlines ls @ final"] Cons.IH [OF ls]
      by (simp add: unlines_Cons)
  qed
qed

lemma re_split_lines:
  assumes "\<forall>l\<in>set ls. nl \<notin> set l" "nl \<notin> set final"
  shows "re_split (unlines ls @ final) = line_sections [] ls final"
  unfolding re_split_def by (rule scan_lines [OF assms])


lemma not_heading_empty: "\<not> is_heading []"
  by (simp add: is_heading_def)

lemma is_heading_prefix: "is_heading (str ''## '' @ n) \<longleftrightarrow> n \<noteq> []"
  by (simp add: is_heading_def str_def)

lemma drop_heading_prefix: "drop 3 (str ''## '' @ n) = n"
  by (simp add: str_def)

subsection \<open>A heading at the very end\<close>

lemma line_sections_trailing_heading:
  assumes "h \<noteq> []"
  shows "line_sections piece ls (str ''## '' @ h) = line_sections piece ls [] @ [h, []]"
proof (induction ls arbitrary: piece)
  case Nil
  have "is_heading (str ''## '' @ h)" using assms by (simp add: is_heading_prefix)
  then show ?case
    by (simp only: line_sections.simps if_True not_heading_empty if_False drop_heading_prefix
        append_Nil2 append.simps)
next
  case (Cons l ls)
  then show ?case by simp
qed

lemma re_split_trailing_heading:
  assumes "\<forall>l\<in>set ls. nl \<notin> set l" "nl \<notin> set h" "h \<noteq> []"
  shows "re_split (unlines ls @ str ''## '' @ h) = re_split (unlines ls) @ [h, []]"
proof -
  have "nl \<notin> set (str ''## '' @ h)" using assms(2) nl_not_in_prefix by simp
  then have "re_split (unlines ls @ str ''## '' @ h) = line_sections [] ls (str ''## '' @ h)"
    by (rule re_split_lines [OF assms(1)])
  moreover have "re_split (unlines ls @ []) = line_sections [] ls []"
    by (rule re_split_lines [OF assms(1)]) simp
  ultimately show ?thesis
    using line_sections_trailing_heading [OF assms(3), of "[]" ls] by simp
qed

lemma pairs_of_snoc: "even (length xs) \<Longrightarrow> pairs_of (xs @ [a, b]) = pairs_of xs @ [(a, b)]"
  by (induction xs rule: pairs_of.induct) simp_all

lemma strip_Nil: "strip [] = []"
  by (simp add: strip_def lstrip_def rstrip_def)

lemma parse_trailing_heading:
  assumes "\<forall>l\<in>set ls. nl \<notin> set l" "nl \<notin> set h" "h \<noteq> []"
  shows "parse_project_updates (unlines ls @ str ''## '' @ h) facts
       = parse_project_updates (unlines ls) facts"
proof -
  let ?r = "re_split (unlines ls)"
  have "odd (length ?r)" by (simp add: re_split_def re_split_scan_odd)
  then obtain r rs where r: "?r = r # rs" and ev: "even (length rs)"
    by (cases ?r) auto
  have "heading_body_pairs (re_split (unlines ls @ str ''## '' @ h))
      = heading_body_pairs ?r @ [(h, [])]"
    using re_split_trailing_heading [OF assms] r pairs_of_snoc [OF ev]
    by (simp add: heading_body_pairs_def)
  moreover have "routed facts (h, []) = []"
    using routed_nonempty [of facts h "[]"] by (simp add: strip_Nil)
  ultimately show ?thesis by (simp add: parse_project_updates_routed)
qed

subsection \<open>Characters the normalization leaves alone\<close>

lemma set_strip_subset: "set (strip s) \<subseteq> set s"
proof -
  have "set (dropWhile P xs) \<subseteq> set xs" for P and xs :: "nat list"
    using set_dropWhileD [of _ P xs] by blast
  then show ?thesis
    unfolding strip_def lstrip_def rstrip_def
    by (metis set_rev subset_trans)
qed

lemma normalize_name_keeps:
  assumes "c \<in> set (strip h)" "c \<notin> {8209, 8211, 8212}"
  shows "c \<in> set (normalize_name h)"
proof -
  from assms(2) have "dash_to_hyphen c = c" by (simp add: dash_to_hyphen_def)
  with assms(1) show ?thesis
    unfolding normalize_name_strip_map by (metis image_eqI set_map)
qed

lemma normalize_name_origin:
  assumes "c \<in> set (normalize_name name)" "c \<noteq> 45"
  shows "c \<in> set name"
proof -
  from assms(1) obtain d where d: "d \<in> set (strip name)" "dash_to_hyphen d = c"
    unfolding normalize_name_strip_map by auto
  from d(2) assms(2) have "d = c" by (auto simp: dash_to_hyphen_def split: if_splits)
  with d(1) show ?thesis using set_strip_subset [of name] by blast
qed

lemma routed_other_character:
  assumes "c \<in> set (strip h)" "c \<notin> {45, 8209, 8211, 8212}"
    and "\<forall>p\<in>set (projects facts). c \<notin> set (pf_name p)"
  shows "routed facts (h, b) = []"
proof -
  have "normalize_name (pf_name p) \<noteq> normalize_name h" if "p \<in> set (projects facts)" for p
  proof
    assume eq: "normalize_name (pf_name p) = normalize_name h"
    have "c \<in> set (normalize_name h)"
      using normalize_name_keeps [of c h] assms(1,2) by simp
    with eq have "c \<in> set (normalize_name (pf_name p))" by simp
    then have "c \<in> set (pf_name p)"
      using normalize_name_origin [of c "pf_name p"] assms(2) by simp
    with assms(3) that show False by blast
  qed
  then show ?thesis using routed_nonempty [of facts h b] by blast
qed

subsection \<open>The router, as specified\<close>


text \<open>
  C7, as amended. The router emits an entry for a heading and body pair exactly when the
  heading, with U+2011, U+2013 and U+2014 turned into hyphens and trimmed, equals the name of
  some project of the fact document normalized the same way, and the trimmed body is not
  empty. The entry carries the trimmed body and the id and name of a project with that
  normalized name. Every other pair is dropped and nothing raises: the split always ends with
  a body piece, which is empty for a heading at the very end of the document, so that a
  document with such a heading after its last line routes as the document without it. A
  heading that differs from a project name only by U+2011, U+2013 or U+2014 in place of ASCII
  hyphens matches it. Any other character stays as it is, U+2010, U+2012, U+2015 and U+2212
  among them: a heading that holds one, inside its trimmed text, that no project name holds
  is dropped.
\<close>

theorem update_router_emits:
  "parse_project_updates markdown facts
     = concat (map (routed facts) (heading_body_pairs (re_split markdown)))
   \<and> length (re_split markdown) = 2 * length (heading_body_pairs (re_split markdown)) + 1
   \<and> (\<forall>h b. routed facts (h, b) \<noteq> []
         \<longleftrightarrow> (\<exists>p\<in>set (projects facts). normalize_name (pf_name p) = normalize_name h)
              \<and> strip b \<noteq> [])
   \<and> (\<forall>h b u. u \<in> set (routed facts (h, b))
         \<longrightarrow> upd_body u = strip b
             \<and> (\<exists>p\<in>set (projects facts). normalize_name (pf_name p) = normalize_name h
                   \<and> upd_project_id u = pf_id p \<and> upd_project_name u = pf_name p))
   \<and> (\<forall>h b p. p \<in> set (projects facts) \<and> pf_name p = map dash_to_hyphen h \<and> strip b \<noteq> []
         \<longrightarrow> routed facts (h, b) \<noteq> [])
   \<and> (\<forall>ls h. (\<forall>l\<in>set ls. nl \<notin> set l) \<and> nl \<notin> set h \<and> h \<noteq> []
         \<longrightarrow> parse_project_updates (unlines ls @ str ''## '' @ h) facts
             = parse_project_updates (unlines ls) facts)
   \<and> (\<forall>h b c. c \<in> set (strip h) \<and> c \<notin> {45, 8209, 8211, 8212}
           \<and> (\<forall>p\<in>set (projects facts). c \<notin> set (pf_name p))
         \<longrightarrow> routed facts (h, b) = [])"
proof -
  have other: "routed facts (h, b) = []"
    if "c \<in> set (strip h)" "c \<notin> {45, 8209, 8211, 8212}"
      "\<forall>p\<in>set (projects facts). c \<notin> set (pf_name p)" for h b c
    using that by (rule routed_other_character)
  have dash: "routed facts (h, b) \<noteq> []"
    if "p \<in> set (projects facts)" "pf_name p = map dash_to_hyphen h" "strip b \<noteq> []"
    for h b p
  proof -
    have "normalize_name (pf_name p) = normalize_name h"
      using that(2) by (simp add: normalize_dashes)
    with that(1,3) show ?thesis unfolding routed_nonempty by blast
  qed
  have trailing: "parse_project_updates (unlines ls @ str ''## '' @ h) facts
      = parse_project_updates (unlines ls) facts"
    if "\<forall>l\<in>set ls. nl \<notin> set l" "nl \<notin> set h" "h \<noteq> []" for ls h
    using that by (rule parse_trailing_heading)
  have first: "parse_project_updates markdown facts
     = concat (map (routed facts) (heading_body_pairs (re_split markdown)))"
    by (rule parse_project_updates_routed)
  have len: "length (re_split markdown) = 2 * length (heading_body_pairs (re_split markdown)) + 1"
    by (rule re_split_length)
  have iff: "\<forall>h b. routed facts (h, b) \<noteq> []
         \<longleftrightarrow> (\<exists>p\<in>set (projects facts). normalize_name (pf_name p) = normalize_name h)
              \<and> strip b \<noteq> []"
    using routed_nonempty [of facts] by blast
  have entry: "\<forall>h b u. u \<in> set (routed facts (h, b))
         \<longrightarrow> upd_body u = strip b
             \<and> (\<exists>p\<in>set (projects facts). normalize_name (pf_name p) = normalize_name h
                   \<and> upd_project_id u = pf_id p \<and> upd_project_name u = pf_name p)"
    using routed_entry [of _ facts] by blast
  from first len iff entry dash trailing other show ?thesis by blast
qed


text \<open>
  A fact document with two projects, and a document with a heading that spells the first
  name with an em dash, a heading no project has, a section whose body is blank, and a
  heading at the very end.
\<close>

definition facts_example :: fact_document where
  "facts_example =
     \<lparr>team_name = str ''Core'', generated_at_utc = str ''2024-01-01T00:00:00+00:00'',
      projects =
        [\<lparr>pf_id = str ''p1'', pf_name = str ''Alpha-One'', pf_url = Some (str ''https://x/p1''),
           pf_status = Some (str ''QA''),
           last_week_issues =
             [\<lparr>issue_key = Some (str ''CO-1''), issue_title = str ''Fix login'',
                issue_state = Some (str ''Done''), issue_assignee = None\<rparr>],
           this_week_issues = []\<rparr>,
         \<lparr>pf_id = str ''p2'', pf_name = str ''Beta'', pf_url = None, pf_status = None,
           last_week_issues = [], this_week_issues = []\<rparr>]\<rparr>"

definition markdown_example :: pystr where
  "markdown_example =
     str ''# Weekly Update (Core)'' @ [nl]
     @ str ''## Alpha'' @ [8212] @ str ''One'' @ [nl]
     @ str ''Shipped.'' @ [nl]
     @ str ''## Gamma'' @ [nl]
     @ str ''Invented.'' @ [nl]
     @ str ''## Beta'' @ [nl]
     @ str ''  '' @ [nl]
     @ str ''## Beta''"


lemma markdown_example_lines:
  "markdown_example =
     unlines [str ''# Weekly Update (Core)'', str ''## Alpha'' @ [8212] @ str ''One'',
              str ''Shipped.'', str ''## Gamma'', str ''Invented.'', str ''## Beta'', str ''  '']
     @ str ''## Beta''"
  by (simp add: markdown_example_def unlines_def)

lemma markdown_example_pairs:
  "heading_body_pairs (re_split markdown_example) =
     [(str ''Alpha'' @ [8212] @ str ''One'', [nl] @ str ''Shipped.'' @ [nl]),
      (str ''Gamma'', [nl] @ str ''Invented.'' @ [nl]),
      (str ''Beta'', [nl] @ str ''  '' @ [nl]),
      (str ''Beta'', [])]"
proof -
  have "re_split markdown_example =
     line_sections []
       [str ''# Weekly Update (Core)'', str ''## Alpha'' @ [8212] @ str ''One'',
        str ''Shipped.'', str ''## Gamma'', str ''Invented.'', str ''## Beta'', str ''  '']
       (str ''## Beta'')"
    unfolding markdown_example_lines
    by (rule re_split_lines) (simp_all add: str_def nl_def)
  then show ?thesis
    by (simp add: heading_body_pairs_def is_heading_def str_def)
qed

lemma routed_example:
  "routed facts_example (str ''Alpha'' @ [8212] @ str ''One'', [nl] @ str ''Shipped.'' @ [nl])
     = [\<lparr>upd_project_id = str ''p1'', upd_project_name = str ''Alpha-One'',
         upd_body = str ''Shipped.''\<rparr>]"
  "routed facts_example (str ''Gamma'', [nl] @ str ''Invented.'' @ [nl]) = []"
  "routed facts_example (str ''Beta'', [nl] @ str ''  '' @ [nl]) = []"
  "routed facts_example (str ''Beta'', []) = []"
  by (simp_all add: routed_def matching_project_def facts_example_def normalize_name_strip_map
      strip_def lstrip_def rstrip_def is_space_def dash_to_hyphen_def str_def nl_def)

theorem update_router_emits_witness:
  "heading_body_pairs (re_split markdown_example) =
     [(str ''Alpha'' @ [8212] @ str ''One'', [nl] @ str ''Shipped.'' @ [nl]),
      (str ''Gamma'', [nl] @ str ''Invented.'' @ [nl]),
      (str ''Beta'', [nl] @ str ''  '' @ [nl]),
      (str ''Beta'', [])]
   \<and> parse_project_updates markdown_example facts_example =
     [\<lparr>upd_project_id = str ''p1'', upd_project_name = str ''Alpha-One'',
       upd_body = str ''Shipped.''\<rparr>]"
proof -
  have "parse_project_updates markdown_example facts_example
     = concat (map (routed facts_example) (heading_body_pairs (re_split markdown_example)))"
    by (rule update_router_emits [of markdown_example facts_example, THEN conjunct1])
  then have "parse_project_updates markdown_example facts_example =
     [\<lparr>upd_project_id = str ''p1'', upd_project_name = str ''Alpha-One'',
       upd_body = str ''Shipped.''\<rparr>]"
    by (simp only: markdown_example_pairs list.map concat.simps routed_example append_Nil
        append_Nil2)
  with markdown_example_pairs show ?thesis by (rule conjI)
qed

text \<open>
  The claim as written has a heading with any stray hyphen-like character match the project
  name spelled with ASCII hyphens. The heading of the document below spells \<open>Alpha-One\<close> with
  the given character in place of the hyphen, over a body that is not empty: with the em dash
  the section is routed, with U+2010 (hyphen), U+2012 (figure dash), U+2015 (horizontal bar) or
  U+2212 (minus sign) it is dropped.
\<close>

definition markdown_hyphen :: "nat \<Rightarrow> pystr" where
  "markdown_hyphen c =
     str ''## Alpha'' @ [c] @ str ''One'' @ [nl]
     @ str ''Shipped.''"

lemma markdown_hyphen_pairs:
  assumes "c \<noteq> nl"
  shows "heading_body_pairs (re_split (markdown_hyphen c)) =
     [(str ''Alpha'' @ [c] @ str ''One'', [nl] @ str ''Shipped.'')]"
proof -
  have "markdown_hyphen c = unlines [str ''## Alpha'' @ [c] @ str ''One''] @ str ''Shipped.''"
    by (simp add: markdown_hyphen_def unlines_def)
  moreover have "re_split (unlines [str ''## Alpha'' @ [c] @ str ''One''] @ str ''Shipped.'')
      = line_sections [] [str ''## Alpha'' @ [c] @ str ''One''] (str ''Shipped.'')"
    using assms by (intro re_split_lines) (simp_all add: str_def nl_def)
  ultimately show ?thesis
    by (simp add: heading_body_pairs_def is_heading_def str_def)
qed

theorem update_router_emits_counterexample:
  "parse_project_updates (markdown_hyphen 8212) facts_example =
     [\<lparr>upd_project_id = str ''p1'', upd_project_name = str ''Alpha-One'',
       upd_body = str ''Shipped.''\<rparr>]
   \<and> parse_project_updates (markdown_hyphen 8208) facts_example = []
   \<and> parse_project_updates (markdown_hyphen 8210) facts_example = []
   \<and> parse_project_updates (markdown_hyphen 8213) facts_example = []
   \<and> parse_project_updates (markdown_hyphen 8722) facts_example = []"
proof -
  have r: "routed facts_example (str ''Alpha'' @ [8212] @ str ''One'', [nl] @ str ''Shipped.'')
     = [\<lparr>upd_project_id = str ''p1'', upd_project_name = str ''Alpha-One'',
         upd_body = str ''Shipped.''\<rparr>]"
    "routed facts_example (str ''Alpha'' @ [8208] @ str ''One'', [nl] @ str ''Shipped.'') = []"
    "routed facts_example (str ''Alpha'' @ [8210] @ str ''One'', [nl] @ str ''Shipped.'') = []"
    "routed facts_example (str ''Alpha'' @ [8213] @ str ''One'', [nl] @ str ''Shipped.'') = []"
    "routed facts_example (str ''Alpha'' @ [8722] @ str ''One'', [nl] @ str ''Shipped.'') = []"
    by (simp_all add: routed_def matching_project_def facts_example_def normalize_name_strip_map
      strip_def lstrip_def rstrip_def is_space_def dash_to_hyphen_def str_def nl_def)
  have p: "parse_project_updates (markdown_hyphen c) facts_example
      = routed facts_example (str ''Alpha'' @ [c] @ str ''One'', [nl] @ str ''Shipped.'')"
    if "c \<noteq> nl" for c
    by (simp add: parse_project_updates_routed markdown_hyphen_pairs [OF that])
  have n: "(8212::nat) \<noteq> nl" "(8208::nat) \<noteq> nl" "(8210::nat) \<noteq> nl" "(8213::nat) \<noteq> nl"
    "(8722::nat) \<noteq> nl"
    by (simp_all add: nl_def)
  show ?thesis
    by (simp only: p [OF n(1)] p [OF n(2)] p [OF n(3)] p [OF n(4)] p [OF n(5)] r simp_thms)
qed

section \<open>draft.py: \<open>_facts_to_markdown\<close>\<close>

text \<open>\<open>x or default\<close> for an optional string: \<open>None\<close> and the empty string are falsy.\<close>

definition or_default :: "pystr option \<Rightarrow> pystr \<Rightarrow> pystr" where
  "or_default x d = (case x of None \<Rightarrow> d | Some s \<Rightarrow> if s = [] then d else s)"

text \<open>\<open>"\n".join(lines)\<close>\<close>

primrec join_lines :: "pystr list \<Rightarrow> pystr" where
  "join_lines [] = []"
| "join_lines (l # ls) = (if ls = [] then l else l @ [nl] @ join_lines ls)"

text \<open>The bullet \<open>f"- {key}: {title} ({state}, {assignee})"\<close>.\<close>

definition issue_line :: "issue_fact \<Rightarrow> pystr" where
  "issue_line i =
     str ''- '' @ or_default (issue_key i) (str ''ISSUE'') @ str '': '' @ issue_title i
     @ str '' ('' @ or_default (issue_state i) (str ''Unknown'') @ str '', ''
     @ or_default (issue_assignee i) (str ''Unassigned'') @ str '')''"

definition issue_lines :: "issue_fact list \<Rightarrow> pystr list" where
  "issue_lines issues = (if issues = [] then [str ''- No updates''] else map issue_line issues)"

text \<open>The line under the heading; \<open>if p.get("url")\<close> holds for a non-empty URL. The dash in
  the literal is U+2014.\<close>

definition status_line :: "project_fact \<Rightarrow> pystr" where
  "status_line p =
     (case pf_url p of
        None \<Rightarrow> str ''*'' @ or_default (pf_status p) (str ''Unknown'') @ str ''*''
      | Some url \<Rightarrow>
          if url \<noteq> [] then
            str ''*'' @ or_default (pf_status p) (str ''Unknown'') @ str ''* '' @ [8212]
            @ str '' [Project Link]('' @ url @ str '')''
          else str ''*'' @ or_default (pf_status p) (str ''Unknown'') @ str ''*'')"

text \<open>The lines of a project after its heading, up to its last bullet.\<close>

definition body_lines :: "project_fact \<Rightarrow> pystr list" where
  "body_lines p =
     [status_line p, [], str ''**Last Week**''] @ issue_lines (last_week_issues p)
     @ [[], str ''**This Week**''] @ issue_lines (this_week_issues p)"

definition project_lines :: "project_fact \<Rightarrow> pystr list" where
  "project_lines p = [str ''## '' @ pf_name p] @ body_lines p @ [[]]"

definition preamble_lines :: "(pystr \<Rightarrow> pystr) \<Rightarrow> fact_document \<Rightarrow> pystr list" where
  "preamble_lines fmt facts =
     [str ''# Weekly Update ('' @ team_name facts @ str '')'', [],
      str ''Generated: '' @ fmt (generated_at_utc facts), []]"

text \<open>
  The renderer. \<open>_fmt\<close> parses the ISO timestamp, moves it to the zone Asia/Kolkata and formats
  it with \<open>strftime\<close>; these calls into the date library are the parameter \<open>fmt\<close>.
\<close>

definition facts_to_markdown :: "(pystr \<Rightarrow> pystr) \<Rightarrow> fact_document \<Rightarrow> pystr" where
  "facts_to_markdown fmt facts =
     rstrip (join_lines (preamble_lines fmt facts @ concat (map project_lines (projects facts))))
     @ [nl]"

subsection \<open>Joined lines\<close>

lemma join_lines_snoc_empty: "join_lines (ls @ [[]]) = unlines ls"
  by (induction ls) (simp_all add: unlines_Nil unlines_Cons)

lemma unlines_join: "ls \<noteq> [] \<Longrightarrow> unlines ls = join_lines ls @ [nl]"
  by (induction ls) (auto simp: unlines_Nil unlines_Cons)

lemma unlines_snoc: "unlines (ls @ [l]) = unlines ls @ l @ [nl]"
  by (simp add: unlines_append unlines_Cons unlines_Nil)

lemma is_space_nl: "is_space nl"
  by (simp add: is_space_def nl_def)

lemma hd_join_lines: "ls \<noteq> [] \<Longrightarrow> hd ls \<noteq> [] \<Longrightarrow> hd (join_lines ls) = hd (hd ls)"
  by (cases ls) auto

lemma join_lines_last_nonempty: "ls \<noteq> [] \<Longrightarrow> last ls \<noteq> [] \<Longrightarrow> join_lines ls \<noteq> []"
  by (induction ls) auto

lemma last_join_lines: "ls \<noteq> [] \<Longrightarrow> last ls \<noteq> [] \<Longrightarrow> last (join_lines ls) = last (last ls)"
  by (induction ls) (auto simp: join_lines_last_nonempty)

lemma join_lines_nonempty: "ls \<noteq> [] \<Longrightarrow> hd ls \<noteq> [] \<Longrightarrow> join_lines ls \<noteq> []"
  by (cases ls) auto


section \<open>Rendering, then routing\<close>

subsection \<open>The rendered lines\<close>

lemma not_heading_hd: "l = [] \<or> hd l \<noteq> 35 \<Longrightarrow> \<not> is_heading l"
  by (cases l) (auto simp: is_heading_def str_def)

lemma status_line_shape:
  "status_line p \<noteq> [] \<and> hd (status_line p) = 42"
  by (simp add: status_line_def str_def split: option.splits)

lemma issue_line_shape:
  "issue_line i \<noteq> [] \<and> hd (issue_line i) = 45 \<and> last (issue_line i) = 41"
  by (simp add: issue_line_def str_def)

lemma issue_lines_shape:
  "issue_lines issues \<noteq> []
   \<and> (\<forall>l\<in>set (issue_lines issues). l \<noteq> [] \<and> hd l = 45 \<and> \<not> is_space (last l))"
  by (auto simp: issue_lines_def issue_line_shape str_def is_space_def)

lemma body_lines_not_heading: "l \<in> set (body_lines p) \<Longrightarrow> \<not> is_heading l"
proof -
  assume "l \<in> set (body_lines p)"
  then have "l = [] \<or> hd l \<noteq> 35"
    using issue_lines_shape [of "last_week_issues p"] issue_lines_shape [of "this_week_issues p"]
      status_line_shape [of p]
    by (auto simp: body_lines_def str_def)
  then show ?thesis by (rule not_heading_hd)
qed

lemma body_lines_ends:
  "body_lines p \<noteq> [] \<and> hd (body_lines p) = status_line p
   \<and> last (body_lines p) \<noteq> [] \<and> \<not> is_space (last (last (body_lines p)))"
proof -
  have "last (body_lines p) = last (issue_lines (this_week_issues p))"
    using issue_lines_shape [of "this_week_issues p"] by (simp add: body_lines_def)
  moreover have "last (issue_lines (this_week_issues p)) \<in> set (issue_lines (this_week_issues p))"
    using issue_lines_shape [of "this_week_issues p"] by simp
  ultimately show ?thesis
    using issue_lines_shape [of "this_week_issues p"] by (simp add: body_lines_def)
qed

text \<open>The body of a section as the router keeps it: the lines of the project, joined.\<close>

lemma body_text_stripped:
  "join_lines (body_lines p) \<noteq> []
   \<and> \<not> is_space (hd (join_lines (body_lines p)))
   \<and> \<not> is_space (last (join_lines (body_lines p)))"
proof -
  note e = body_lines_ends [of p]
  note s = status_line_shape [of p]
  have "hd (join_lines (body_lines p)) = 42"
    using e s hd_join_lines [of "body_lines p"] by simp
  moreover have "last (join_lines (body_lines p)) = last (last (body_lines p))"
    using e by (simp add: last_join_lines)
  moreover have "join_lines (body_lines p) \<noteq> []"
    using e by (simp add: join_lines_last_nonempty)
  ultimately show ?thesis using e by (simp add: is_space_def)
qed

subsection \<open>Trimming around a trimmed text\<close>

lemma strip_padded:
  assumes "t \<noteq> []" "\<not> is_space (hd t)" "\<not> is_space (last t)"
    and a: "\<forall>c\<in>set a. is_space c" and b: "\<forall>c\<in>set b. is_space c"
  shows "strip (a @ t @ b) = t"
proof -
  have "lstrip (a @ t @ b) = dropWhile is_space (t @ b)"
    using a by (simp add: lstrip_def dropWhile_append2)
  also have "\<dots> = t @ b"
    using assms(1,2) by (cases t) simp_all
  finally have l: "lstrip (a @ t @ b) = t @ b" .
  have "dropWhile is_space (rev b @ rev t) = dropWhile is_space (rev t)"
    by (rule dropWhile_append2) (use b in simp)
  also have "\<dots> = rev t"
    using assms(1,3) by (cases t rule: rev_cases) simp_all
  finally have "rstrip (t @ b) = t" by (simp add: rstrip_def)
  with l show ?thesis by (simp add: strip_def)
qed

lemma rstrip_append_nonempty:
  assumes "rstrip b \<noteq> []"
  shows "rstrip (a @ b) = a @ rstrip b"
proof -
  from assms have "dropWhile is_space (rev b) \<noteq> []" by (simp add: rstrip_def)
  then obtain c where "c \<in> set (rev b)" "\<not> is_space c"
    by (metis dropWhile_eq_Nil_conv)
  then have "dropWhile is_space (rev b @ rev a) = dropWhile is_space (rev b) @ rev a"
    by (rule dropWhile_append1)
  then show ?thesis by (simp add: rstrip_def)
qed

lemma set_rstrip: "set (rstrip s) \<subseteq> set s"
  using rstrip_prefix [of s] by (metis Un_upper1 set_append)

subsection \<open>The sections of a text made of heading blocks\<close>

lemma line_sections_plain:
  "\<forall>l\<in>set xs. \<not> is_heading l \<Longrightarrow>
     line_sections piece (xs @ rest) final = line_sections (piece @ unlines xs) rest final"
  by (induction xs arbitrary: piece) (simp_all add: unlines_Nil unlines_Cons)

lemma line_sections_blocks:
  assumes "\<forall>x\<in>set xs. f x \<noteq> [] \<and> (\<forall>l\<in>set (g x). \<not> is_heading l)"
  shows "line_sections piece (concat (map (\<lambda>x. (str ''## '' @ f x) # g x) xs)) []
       = piece # concat (map (\<lambda>x. [f x, nl # unlines (g x)]) xs)"
  using assms
proof (induction xs arbitrary: piece)
  case Nil
  have "\<not> is_heading []" by (simp add: is_heading_def)
  then show ?case by simp
next
  case (Cons x xs)
  then have x: "f x \<noteq> []" "\<forall>l\<in>set (g x). \<not> is_heading l"
    and xs: "\<forall>x\<in>set xs. f x \<noteq> [] \<and> (\<forall>l\<in>set (g x). \<not> is_heading l)"
    by auto
  let ?rest = "concat (map (\<lambda>x. (str ''## '' @ f x) # g x) xs)"
  have h: "is_heading (str ''## '' @ f x)" using x(1) by (simp add: is_heading_prefix)
  have c: "concat (map (\<lambda>x. (str ''## '' @ f x) # g x) (x # xs))
      = (str ''## '' @ f x) # (g x @ ?rest)"
    by simp
  have "line_sections piece (concat (map (\<lambda>x. (str ''## '' @ f x) # g x) (x # xs))) []
      = piece # f x # line_sections [nl] (g x @ ?rest) []"
    unfolding c by (simp only: line_sections.simps h if_True drop_heading_prefix)
  also have "line_sections [nl] (g x @ ?rest) [] = line_sections ([nl] @ unlines (g x)) ?rest []"
    by (rule line_sections_plain [OF x(2)])
  also have "\<dots> = ([nl] @ unlines (g x)) # concat (map (\<lambda>x. [f x, nl # unlines (g x)]) xs)"
    by (rule Cons.IH [OF xs])
  finally show ?case by simp
qed

lemma pairs_of_blocks: "pairs_of (concat (map (\<lambda>x. [f x, g x]) xs)) = map (\<lambda>x. (f x, g x)) xs"
  by (induction xs) simp_all


subsection \<open>Fact documents whose fields hold no line feed\<close>

definition single_line :: "pystr \<Rightarrow> bool" where
  "single_line s \<longleftrightarrow> nl \<notin> set s"

definition opt_single_line :: "pystr option \<Rightarrow> bool" where
  "opt_single_line x = (case x of None \<Rightarrow> True | Some s \<Rightarrow> single_line s)"

definition issue_single_line :: "issue_fact \<Rightarrow> bool" where
  "issue_single_line i \<longleftrightarrow>
     opt_single_line (issue_key i) \<and> single_line (issue_title i)
     \<and> opt_single_line (issue_state i) \<and> opt_single_line (issue_assignee i)"

definition project_single_line :: "project_fact \<Rightarrow> bool" where
  "project_single_line p \<longleftrightarrow>
     single_line (pf_name p) \<and> opt_single_line (pf_url p) \<and> opt_single_line (pf_status p)
     \<and> list_all issue_single_line (last_week_issues p)
     \<and> list_all issue_single_line (this_week_issues p)"

text \<open>
  The fact documents of the round trip: no rendered field holds a line feed, and every
  project has a name.
\<close>

definition renders_line_by_line :: "(pystr \<Rightarrow> pystr) \<Rightarrow> fact_document \<Rightarrow> bool" where
  "renders_line_by_line fmt facts \<longleftrightarrow>
     single_line (team_name facts) \<and> single_line (fmt (generated_at_utc facts))
     \<and> list_all (\<lambda>p. project_single_line p \<and> pf_name p \<noteq> []) (projects facts)"

lemma single_line_append: "single_line (a @ b) \<longleftrightarrow> single_line a \<and> single_line b"
  by (auto simp: single_line_def)

lemma single_line_Cons: "single_line (c # s) \<longleftrightarrow> c \<noteq> nl \<and> single_line s"
  by (auto simp: single_line_def)

lemma single_line_or_default:
  "opt_single_line x \<Longrightarrow> single_line d \<Longrightarrow> single_line (or_default x d)"
  by (simp add: or_default_def opt_single_line_def split: option.splits)

lemma single_line_issue_line:
  assumes "issue_single_line i"
  shows "single_line (issue_line i)"
proof -
  have lit: "single_line (str ''- '')" "single_line (str ''ISSUE'')" "single_line (str '': '')"
    "single_line (str '' ('')" "single_line (str ''Unknown'')" "single_line (str '', '')"
    "single_line (str ''Unassigned'')" "single_line (str '')'')"
    by (simp_all add: single_line_def str_def nl_def)
  from assms have f: "opt_single_line (issue_key i)" "single_line (issue_title i)"
    "opt_single_line (issue_state i)" "opt_single_line (issue_assignee i)"
    by (simp_all add: issue_single_line_def)
  have d: "single_line (or_default (issue_key i) (str ''ISSUE''))"
    "single_line (or_default (issue_state i) (str ''Unknown''))"
    "single_line (or_default (issue_assignee i) (str ''Unassigned''))"
    using f lit by (simp_all add: single_line_or_default)
  show ?thesis
    unfolding issue_line_def single_line_append using lit f(2) d by simp
qed

lemma single_line_issue_lines:
  assumes "list_all issue_single_line issues"
  shows "\<forall>l\<in>set (issue_lines issues). single_line l"
proof (cases "issues = []")
  case True
  have "single_line (str ''- No updates'')" by (simp add: single_line_def str_def nl_def)
  with True show ?thesis by (simp add: issue_lines_def)
next
  case False
  from assms have "\<forall>i\<in>set issues. single_line (issue_line i)"
    by (simp add: list_all_iff single_line_issue_line)
  with False show ?thesis by (simp add: issue_lines_def)
qed

lemma single_line_status_line:
  assumes "opt_single_line (pf_url p)" "opt_single_line (pf_status p)"
  shows "single_line (status_line p)"
proof -
  have lit: "single_line (str ''*'')" "single_line (str ''Unknown'')" "single_line (str ''* '')"
    "single_line [8212]" "single_line (str '' [Project Link]('')" "single_line (str '')'')"
    by (simp_all add: single_line_def str_def nl_def)
  have d: "single_line (or_default (pf_status p) (str ''Unknown''))"
    using assms(2) lit(2) by (rule single_line_or_default)
  show ?thesis
  proof (cases "pf_url p")
    case None
    then show ?thesis using lit d by (simp add: status_line_def single_line_append)
  next
    case (Some url)
    with assms(1) have "single_line url" by (simp add: opt_single_line_def)
    then show ?thesis
      using Some lit d
      by (simp add: status_line_def single_line_append single_line_Cons nl_def)
  qed
qed

lemma single_line_body_lines:
  assumes "project_single_line p"
  shows "\<forall>l\<in>set (body_lines p). single_line l"
proof -
  have lit: "single_line []" "single_line (str ''**Last Week**'')"
    "single_line (str ''**This Week**'')"
    by (simp_all add: single_line_def str_def nl_def)
  from assms have u: "opt_single_line (pf_url p)" "opt_single_line (pf_status p)"
    and l: "list_all issue_single_line (last_week_issues p)"
    and t: "list_all issue_single_line (this_week_issues p)"
    by (simp_all add: project_single_line_def)
  have "single_line (status_line p)" using u by (rule single_line_status_line)
  then show ?thesis
    using lit single_line_issue_lines [OF l] single_line_issue_lines [OF t]
    by (auto simp: body_lines_def)
qed

subsection \<open>The rendered text\<close>

definition title_line :: "fact_document \<Rightarrow> pystr" where
  "title_line facts = str ''# Weekly Update ('' @ team_name facts @ str '')''"

definition generated_line :: "(pystr \<Rightarrow> pystr) \<Rightarrow> fact_document \<Rightarrow> pystr" where
  "generated_line fmt facts = str ''Generated: '' @ fmt (generated_at_utc facts)"

lemma preamble_lines_eq:
  "preamble_lines fmt facts = [title_line facts, [], generated_line fmt facts, []]"
  by (simp add: preamble_lines_def title_line_def generated_line_def)

lemma title_line_not_heading: "\<not> is_heading (title_line facts)"
  by (simp add: title_line_def is_heading_def str_def)

lemma generated_line_shape:
  "rstrip (generated_line fmt facts) \<noteq> []
   \<and> hd (rstrip (generated_line fmt facts)) = 71"
proof -
  have "generated_line fmt facts \<noteq> []" "hd (generated_line fmt facts) = 71"
    by (simp_all add: generated_line_def str_def)
  moreover have "\<not> is_space 71" by (simp add: is_space_def)
  ultimately show ?thesis using rstrip_hd [of "generated_line fmt facts"] by simp
qed

text \<open>Without projects the text is the preamble, right-trimmed.\<close>

lemma facts_to_markdown_no_projects:
  assumes "projects facts = []"
  shows "facts_to_markdown fmt facts
       = unlines [title_line facts, [], rstrip (generated_line fmt facts)]"
proof -
  let ?g = "generated_line fmt facts"
  have "join_lines (preamble_lines fmt facts) = unlines [title_line facts, [], ?g]"
    using join_lines_snoc_empty [of "[title_line facts, [], ?g]"]
    by (simp add: preamble_lines_eq)
  also have "\<dots> = ((title_line facts @ [nl, nl]) @ ?g) @ [nl]"
    by (simp add: unlines_Cons unlines_Nil)
  finally have "rstrip (join_lines (preamble_lines fmt facts))
      = rstrip ((title_line facts @ [nl, nl]) @ ?g)"
    by (simp only: rstrip_snoc_space [OF is_space_nl])
  also have "\<dots> = (title_line facts @ [nl, nl]) @ rstrip ?g"
    using generated_line_shape [of fmt facts] by (intro rstrip_append_nonempty) simp
  finally show ?thesis
    using assms by (simp add: facts_to_markdown_def unlines_Cons unlines_Nil)
qed

text \<open>With projects the trimming only removes the last, empty line.\<close>

lemma facts_to_markdown_projects:
  assumes "projects facts = qs @ [p]"
  shows "facts_to_markdown fmt facts
       = unlines (preamble_lines fmt facts @ concat (map project_lines qs)
            @ (str ''## '' @ pf_name p) # body_lines p)"
proof -
  let ?front = "preamble_lines fmt facts @ concat (map project_lines qs)
      @ (str ''## '' @ pf_name p) # butlast (body_lines p)"
  let ?b = "last (body_lines p)"
  note e = body_lines_ends [of p]
  have bl: "body_lines p = butlast (body_lines p) @ [?b]" using e by simp
  have lines: "preamble_lines fmt facts @ concat (map project_lines (projects facts))
      = (?front @ [?b]) @ [[]]"
    using assms bl by (simp add: project_lines_def)
  have "join_lines (preamble_lines fmt facts @ concat (map project_lines (projects facts)))
      = unlines (?front @ [?b])"
    unfolding lines by (rule join_lines_snoc_empty)
  also have "\<dots> = (unlines ?front @ ?b) @ [nl]"
    using unlines_snoc [of ?front ?b] by simp
  finally have "rstrip (join_lines (preamble_lines fmt facts
        @ concat (map project_lines (projects facts))))
      = rstrip (unlines ?front @ ?b)"
    by (simp only: rstrip_snoc_space [OF is_space_nl])
  also have "\<dots> = unlines ?front @ ?b"
    using e by (intro rstrip_id) simp
  finally have "facts_to_markdown fmt facts = (unlines ?front @ ?b) @ [nl]"
    by (simp add: facts_to_markdown_def)
  also have "\<dots> = unlines (?front @ [?b])"
    using unlines_snoc [of ?front ?b] by simp
  also have "?front @ [?b] = preamble_lines fmt facts @ concat (map project_lines qs)
            @ (str ''## '' @ pf_name p) # body_lines p"
    using bl by simp
  finally show ?thesis .
qed


subsection \<open>The sections of the rendered text\<close>

lemma single_line_title_line: "single_line (team_name facts) \<Longrightarrow> single_line (title_line facts)"
  by (simp add: title_line_def single_line_append) (simp add: single_line_def str_def nl_def)

lemma single_line_generated_line:
  assumes "single_line (fmt (generated_at_utc facts))"
  shows "single_line (generated_line fmt facts) \<and> single_line (rstrip (generated_line fmt facts))"
proof -
  have "single_line (str ''Generated: '')" by (simp add: single_line_def str_def nl_def)
  with assms have g: "single_line (generated_line fmt facts)"
    by (simp add: generated_line_def single_line_append)
  then have "single_line (rstrip (generated_line fmt facts))"
    using set_rstrip [of "generated_line fmt facts"] by (auto simp: single_line_def)
  with g show ?thesis by simp
qed

lemma generated_line_not_heading:
  "\<not> is_heading (generated_line fmt facts) \<and> \<not> is_heading (rstrip (generated_line fmt facts))"
proof -
  have "hd (generated_line fmt facts) = 71" by (simp add: generated_line_def str_def)
  then have "\<not> is_heading (generated_line fmt facts)" by (intro not_heading_hd) simp
  moreover have "\<not> is_heading (rstrip (generated_line fmt facts))"
    using generated_line_shape [of fmt facts] by (intro not_heading_hd) simp
  ultimately show ?thesis by simp
qed

lemma rendered_pairs_no_projects:
  assumes "renders_line_by_line fmt facts" "projects facts = []"
  shows "heading_body_pairs (re_split (facts_to_markdown fmt facts)) = []"
proof -
  let ?ls = "[title_line facts, [], rstrip (generated_line fmt facts)]"
  from assms(1) have s: "single_line (team_name facts)" "single_line (fmt (generated_at_utc facts))"
    by (simp_all add: renders_line_by_line_def)
  have nl: "\<forall>l\<in>set ?ls. nl \<notin> set l"
    using single_line_title_line [OF s(1)] single_line_generated_line [of fmt facts] s(2)
    by (simp add: single_line_def)
  have nh: "\<forall>l\<in>set ?ls. \<not> is_heading l"
    using title_line_not_heading [of facts] generated_line_not_heading [of fmt facts]
      not_heading_empty
    by simp
  have "re_split (facts_to_markdown fmt facts) = re_split (unlines ?ls @ [])"
    by (simp add: facts_to_markdown_no_projects [OF assms(2)])
  also have "\<dots> = line_sections [] (?ls @ []) []"
    using re_split_lines [OF nl, of "[]"] by simp
  also have "\<dots> = line_sections ([] @ unlines ?ls) [] []"
    by (rule line_sections_plain [OF nh])
  also have "\<dots> = [unlines ?ls]"
    using not_heading_empty by simp
  finally show ?thesis by (simp add: heading_body_pairs_def)
qed

lemma in_set_concat_map: "l \<in> set (concat (map f xs)) \<longleftrightarrow> (\<exists>x\<in>set xs. l \<in> set (f x))"
  by (induction xs) auto

text \<open>
  The blocks of the rendered text: a project and whether the empty line after its bullets
  is part of the text (it is, except for the last project).
\<close>

definition block_lines :: "project_fact \<times> bool \<Rightarrow> pystr list" where
  "block_lines x = body_lines (fst x) @ (if snd x then [[]] else [])"

lemma strip_block:
  "strip (nl # unlines (block_lines x)) = join_lines (body_lines (fst x))"
proof -
  let ?t = "join_lines (body_lines (fst x))"
  note e = body_lines_ends [of "fst x"]
  note t = body_text_stripped [of "fst x"]
  have u: "unlines (body_lines (fst x)) = ?t @ [nl]"
    using e by (simp add: unlines_join)
  have "nl # unlines (block_lines x) = [nl] @ ?t @ (if snd x then [nl, nl] else [nl])"
    by (simp add: block_lines_def unlines_append unlines_Cons unlines_Nil u)
  moreover have "strip ([nl] @ ?t @ (if snd x then [nl, nl] else [nl])) = ?t"
    using t is_space_nl by (intro strip_padded) simp_all
  ultimately show ?thesis by simp
qed

lemma rendered_pairs_projects:
  assumes r: "renders_line_by_line fmt facts" and ps: "projects facts = qs @ [p]"
  shows "heading_body_pairs (re_split (facts_to_markdown fmt facts))
       = map (\<lambda>x. (pf_name (fst x), nl # unlines (block_lines x)))
           (map (\<lambda>q. (q, True)) qs @ [(p, False)])"
proof -
  let ?xs = "map (\<lambda>q. (q, True)) qs @ [(p, False)]"
  let ?pre = "preamble_lines fmt facts"
  let ?blocks = "concat (map (\<lambda>x. (str ''## '' @ pf_name (fst x)) # block_lines x) ?xs)"
  from r have s: "single_line (team_name facts)" "single_line (fmt (generated_at_utc facts))"
    and pr: "\<forall>q\<in>set (projects facts). project_single_line q \<and> pf_name q \<noteq> []"
    by (simp_all add: renders_line_by_line_def list_all_iff)
  have fst_xs: "fst ` set ?xs = set (projects facts)"
    using ps by (auto simp: image_iff)
  have lines: "?pre @ concat (map project_lines qs) @ (str ''## '' @ pf_name p) # body_lines p
      = ?pre @ ?blocks"
  proof -
    have "project_lines = (\<lambda>q. (str ''## '' @ pf_name q) # body_lines q @ [[]])"
      by (rule ext) (simp add: project_lines_def)
    then show ?thesis by (simp add: block_lines_def o_def)
  qed
  have pre_nl: "\<forall>l\<in>set ?pre. nl \<notin> set l"
    using single_line_title_line [OF s(1)] single_line_generated_line [of fmt facts] s(2)
    by (simp add: preamble_lines_eq single_line_def)
  have pre_nh: "\<forall>l\<in>set ?pre. \<not> is_heading l"
    using title_line_not_heading [of facts] generated_line_not_heading [of fmt facts]
      not_heading_empty
    by (simp add: preamble_lines_eq)
  have block_nl: "nl \<notin> set l" if "x \<in> set ?xs" "l \<in> set ((str ''## '' @ pf_name (fst x)) # block_lines x)"
    for x l
  proof -
    from that(1) fst_xs have "fst x \<in> set (projects facts)" by blast
    with pr have q: "project_single_line (fst x)" by blast
    then have "single_line (pf_name (fst x))" by (simp add: project_single_line_def)
    moreover have "single_line (str ''## '')" by (simp add: single_line_def str_def nl_def)
    ultimately have "single_line (str ''## '' @ pf_name (fst x))"
      by (simp add: single_line_append)
    moreover have "\<forall>l\<in>set (block_lines x). single_line l"
      using single_line_body_lines [OF q] by (auto simp: block_lines_def single_line_def)
    ultimately show ?thesis using that(2) by (auto simp: single_line_def)
  qed
  have all_nl: "\<forall>l\<in>set (?pre @ ?blocks). nl \<notin> set l"
  proof
    fix l assume "l \<in> set (?pre @ ?blocks)"
    then consider "l \<in> set ?pre" | "l \<in> set ?blocks"
      by (simp only: set_append Un_iff) blast
    then show "nl \<notin> set l"
    proof cases
      case 1
      with pre_nl show ?thesis by blast
    next
      case 2
      then obtain x where "x \<in> set ?xs"
        "l \<in> set ((str ''## '' @ pf_name (fst x)) # block_lines x)"
        unfolding in_set_concat_map by blast
      then show ?thesis by (rule block_nl)
    qed
  qed
  have block_ok: "\<forall>x\<in>set ?xs. pf_name (fst x) \<noteq> []
      \<and> (\<forall>l\<in>set (block_lines x). \<not> is_heading l)"
  proof
    fix x assume "x \<in> set ?xs"
    with fst_xs have "fst x \<in> set (projects facts)" by blast
    with pr have "pf_name (fst x) \<noteq> []" by blast
    moreover have "\<forall>l\<in>set (block_lines x). \<not> is_heading l"
      using body_lines_not_heading [of _ "fst x"] not_heading_empty
      by (auto simp: block_lines_def)
    ultimately show "pf_name (fst x) \<noteq> [] \<and> (\<forall>l\<in>set (block_lines x). \<not> is_heading l)"
      by simp
  qed
  have "re_split (facts_to_markdown fmt facts) = re_split (unlines (?pre @ ?blocks) @ [])"
    by (simp only: facts_to_markdown_projects [OF ps] lines append_Nil2)
  also have "\<dots> = line_sections [] (?pre @ ?blocks) []"
    by (rule re_split_lines [OF all_nl]) simp
  also have "\<dots> = line_sections ([] @ unlines ?pre) ?blocks []"
    by (rule line_sections_plain [OF pre_nh])
  also have "\<dots> = ([] @ unlines ?pre)
      # concat (map (\<lambda>x. [pf_name (fst x), nl # unlines (block_lines x)]) ?xs)"
    by (rule line_sections_blocks [OF block_ok])
  finally show ?thesis
    by (simp only: heading_body_pairs_def list.sel pairs_of_blocks)
qed


subsection \<open>The round trip\<close>

lemma routed_strip: "routed facts (h, strip b) = routed facts (h, b)"
  by (cases "matching_project facts h") (simp_all add: routed_def strip_idem)

lemma routed_match:
  "matching_project facts h = Some q \<Longrightarrow> strip b \<noteq> [] \<Longrightarrow>
     routed facts (h, b)
       = [\<lparr>upd_project_id = pf_id q, upd_project_name = pf_name q, upd_body = strip b\<rparr>]"
  by (simp add: routed_def)

lemma strip_body_text: "strip (join_lines (body_lines p)) = join_lines (body_lines p)"
  using body_text_stripped [of p] by (intro strip_id) (simp add: stripped_def)

text \<open>
  On a fact document that renders line by line, the router sees one section per project, in
  order: the project's name as heading and its joined lines as body. Which project the
  heading is keyed to is left to the lookup.
\<close>

lemma rendered_sections_routed:
  assumes "renders_line_by_line fmt facts"
  shows "parse_project_updates (facts_to_markdown fmt facts) facts
       = concat (map (\<lambda>p. routed facts (pf_name p, join_lines (body_lines p)))
           (projects facts))"
proof (cases "projects facts" rule: rev_cases)
  case Nil
  then show ?thesis
    using rendered_pairs_no_projects [OF assms Nil]
    by (simp add: parse_project_updates_routed)
next
  case (snoc qs p)
  let ?xs = "map (\<lambda>q. (q, True)) qs @ [(p, False)]"
  have "parse_project_updates (facts_to_markdown fmt facts) facts
      = concat (map (routed facts)
          (map (\<lambda>x. (pf_name (fst x), nl # unlines (block_lines x))) ?xs))"
    by (simp only: parse_project_updates_routed rendered_pairs_projects [OF assms snoc])
  also have "\<dots> = concat (map (\<lambda>x. routed facts (pf_name (fst x), nl # unlines (block_lines x))) ?xs)"
    by (simp only: map_map o_def)
  also have "\<dots> = concat (map (\<lambda>x. routed facts (pf_name (fst x), join_lines (body_lines (fst x)))) ?xs)"
  proof -
    have "routed facts (pf_name (fst x), nl # unlines (block_lines x))
        = routed facts (pf_name (fst x), join_lines (body_lines (fst x)))" for x
      using routed_strip [of facts "pf_name (fst x)" "nl # unlines (block_lines x)"]
      by (simp add: strip_block)
    then show ?thesis by simp
  qed
  also have "\<dots> = concat (map (\<lambda>p. routed facts (pf_name p, join_lines (body_lines p))) (qs @ [p]))"
    by (simp add: o_def)
  finally show ?thesis using snoc by simp
qed

lemma matching_project_distinct:
  assumes d: "distinct (map (\<lambda>p. normalize_name (pf_name p)) (projects facts))"
    and q: "q \<in> set (projects facts)"
  shows "matching_project facts (pf_name q) = Some q"
proof (cases "matching_project facts (pf_name q)")
  case None
  with q show ?thesis using matching_project_None [of facts "pf_name q"] by blast
next
  case (Some r)
  from matching_project_Some [OF Some]
  have r: "r \<in> set (projects facts)" "normalize_name (pf_name r) = normalize_name (pf_name q)"
    by simp_all
  from d have "inj_on (\<lambda>p. normalize_name (pf_name p)) (set (projects facts))"
    by (simp add: distinct_map)
  with r q have "r = q" by (auto dest: inj_onD)
  with Some show ?thesis by simp
qed

text \<open>
  C6, as amended. Take a fact document in which no rendered field (team name, formatted
  timestamp, project name, status, URL, issue key, title, state and assignee) holds a line
  feed, every project has a non-empty name, and no two projects have the same normalized
  name. Rendering it with the deterministic renderer and routing the text back yields exactly
  one section per project of the document, in the document's order, with that project's id
  and name and with the project's rendered lines as body; a project without issues is
  among them, with the lines that say "No updates".
\<close>

theorem render_route_roundtrip:
  assumes "renders_line_by_line fmt facts"
    and "distinct (map (\<lambda>p. normalize_name (pf_name p)) (projects facts))"
  shows "parse_project_updates (facts_to_markdown fmt facts) facts
       = map (\<lambda>p. \<lparr>upd_project_id = pf_id p, upd_project_name = pf_name p,
                    upd_body = join_lines (body_lines p)\<rparr>) (projects facts)"
proof -
  have one: "routed facts (pf_name p, join_lines (body_lines p))
      = [\<lparr>upd_project_id = pf_id p, upd_project_name = pf_name p,
           upd_body = join_lines (body_lines p)\<rparr>]"
    if "p \<in> set (projects facts)" for p
  proof -
    have "strip (join_lines (body_lines p)) \<noteq> []"
      using body_text_stripped [of p] by (simp add: strip_body_text)
    with routed_match [OF matching_project_distinct [OF assms(2) that]]
    show ?thesis by (simp add: strip_body_text)
  qed
  have "concat (map (\<lambda>p. routed facts (pf_name p, join_lines (body_lines p))) ps)
      = map (\<lambda>p. \<lparr>upd_project_id = pf_id p, upd_project_name = pf_name p,
                    upd_body = join_lines (body_lines p)\<rparr>) ps"
    if "set ps \<subseteq> set (projects facts)" for ps
    using that by (induction ps) (simp_all add: one)
  then show ?thesis
    using rendered_sections_routed [OF assms(1)] by simp
qed

text \<open>
  What \<open>_fmt\<close> returns for the timestamp of the examples, 2024-01-01T00:00:00+00:00: half past
  five in the morning in Asia/Kolkata.
\<close>

definition fmt_example :: "pystr \<Rightarrow> pystr" where
  "fmt_example timestamp = str ''2024-01-01 05:30 IST''"

lemma facts_example_renders: "renders_line_by_line fmt_example facts_example"
  by (simp add: renders_line_by_line_def project_single_line_def issue_single_line_def
      opt_single_line_def single_line_def facts_example_def fmt_example_def str_def nl_def)

lemma normalize_plain:
  "normalize_name (str ''Alpha-One'') = str ''Alpha-One''"
  "normalize_name (str ''Beta'') = str ''Beta''"
  "normalize_name (str ''Apollo'') = str ''Apollo''"
  by (simp_all add: normalize_name_strip_map strip_def lstrip_def rstrip_def is_space_def
      dash_to_hyphen_def str_def)

theorem render_route_roundtrip_witness:
  "renders_line_by_line fmt_example facts_example
   \<and> distinct (map (\<lambda>p. normalize_name (pf_name p)) (projects facts_example))
   \<and> map upd_project_id
        (parse_project_updates (facts_to_markdown fmt_example facts_example) facts_example)
       = [str ''p1'', str ''p2'']
   \<and> map upd_project_name
        (parse_project_updates (facts_to_markdown fmt_example facts_example) facts_example)
       = [str ''Alpha-One'', str ''Beta'']"
proof -
  have d: "distinct (map (\<lambda>p. normalize_name (pf_name p)) (projects facts_example))"
    by (simp add: facts_example_def normalize_plain) (simp add: str_def)
  note rt = render_route_roundtrip [OF facts_example_renders d]
  have "map upd_project_id
        (parse_project_updates (facts_to_markdown fmt_example facts_example) facts_example)
       = [str ''p1'', str ''p2'']"
    unfolding rt by (simp add: facts_example_def o_def)
  moreover have "map upd_project_name
        (parse_project_updates (facts_to_markdown fmt_example facts_example) facts_example)
       = [str ''Alpha-One'', str ''Beta'']"
    unfolding rt by (simp add: facts_example_def o_def)
  ultimately show ?thesis using facts_example_renders d by blast
qed

text \<open>
  The claim as written speaks of every fact document. In the document below two projects
  with different ids carry the same name, and both have issues. The dictionary of the router
  is keyed by the normalized name, so the second project overwrites the first: both recovered
  sections carry the id of the second project and none carries the id of the first.
\<close>

definition project_apollo :: "pystr \<Rightarrow> project_fact" where
  "project_apollo i =
     \<lparr>pf_id = i, pf_name = str ''Apollo'', pf_url = None, pf_status = Some (str ''QA''),
      last_week_issues =
        [\<lparr>issue_key = Some (str ''AP-1''), issue_title = str ''Ship'',
           issue_state = Some (str ''Done''), issue_assignee = Some (str ''Ada'')\<rparr>],
      this_week_issues =
        [\<lparr>issue_key = Some (str ''AP-2''), issue_title = str ''Test'',
           issue_state = Some (str ''Todo''), issue_assignee = None\<rparr>]\<rparr>"

definition facts_duplicate :: fact_document where
  "facts_duplicate =
     \<lparr>team_name = str ''Core'', generated_at_utc = str ''2024-01-01T00:00:00+00:00'',
      projects = [project_apollo (str ''p1''), project_apollo (str ''p2'')]\<rparr>"

theorem render_route_roundtrip_counterexample:
  "map pf_id (projects facts_duplicate) = [str ''p1'', str ''p2'']
   \<and> map upd_project_id
        (parse_project_updates (facts_to_markdown fmt_example facts_duplicate) facts_duplicate)
       = [str ''p2'', str ''p2'']"
proof -
  have r: "renders_line_by_line fmt_example facts_duplicate"
    by (simp add: renders_line_by_line_def project_single_line_def issue_single_line_def
        opt_single_line_def single_line_def facts_duplicate_def project_apollo_def
        fmt_example_def str_def nl_def)
  have m: "matching_project facts_duplicate (str ''Apollo'') = Some (project_apollo (str ''p2''))"
    by (simp add: matching_project_def facts_duplicate_def project_apollo_def normalize_plain)
  have one: "routed facts_duplicate (str ''Apollo'', join_lines (body_lines p))
      = [\<lparr>upd_project_id = str ''p2'', upd_project_name = str ''Apollo'',
           upd_body = join_lines (body_lines p)\<rparr>]" for p
  proof -
    have "strip (join_lines (body_lines p)) \<noteq> []"
      using body_text_stripped [of p] by (simp add: strip_body_text)
    with routed_match [OF m] show ?thesis
      by (simp add: strip_body_text project_apollo_def)
  qed
  have "map upd_project_id
        (parse_project_updates (facts_to_markdown fmt_example facts_duplicate) facts_duplicate)
       = [str ''p2'', str ''p2'']"
  proof -
    have ps: "projects facts_duplicate = [project_apollo (str ''p1''), project_apollo (str ''p2'')]"
      by (simp add: facts_duplicate_def)
    have nm: "pf_name (project_apollo i) = str ''Apollo''" for i
      by (simp add: project_apollo_def)
    show ?thesis
      unfolding rendered_sections_routed [OF r] ps by (simp add: nm one)
  qed
  moreover have "map pf_id (projects facts_duplicate) = [str ''p1'', str ''p2'']"
    by (simp add: facts_duplicate_def project_apollo_def)
  ultimately show ?thesis by simp
qed


subsection \<open>Why the round trip needs its conditions\<close>

lemma strip_nonempty:
  assumes "c \<in> set s" "\<not> is_space c"
  shows "strip s \<noteq> []"
proof -
  have "lstrip s \<noteq> []"
    using assms by (auto simp: lstrip_def dropWhile_eq_Nil_conv)
  then show ?thesis
    using lstrip_hd [of s] rstrip_hd [of "lstrip s"] by (simp add: strip_def)
qed

text \<open>
  A project without a name: its heading line is \<open>## \<close> with nothing after it, which the
  pattern does not match, so its lines fall into the text before the next heading and no
  section carries its id.
\<close>

definition project_plain :: "pystr \<Rightarrow> pystr \<Rightarrow> project_fact" where
  "project_plain i n =
     \<lparr>pf_id = i, pf_name = n, pf_url = None, pf_status = None,
      last_week_issues = [], this_week_issues = []\<rparr>"

definition facts_unnamed :: fact_document where
  "facts_unnamed =
     \<lparr>team_name = str ''Core'', generated_at_utc = str ''2024-01-01T00:00:00+00:00'',
      projects = [project_plain (str ''p1'') [], project_plain (str ''p2'') (str ''Beta'')]\<rparr>"

lemma roundtrip_unnamed_project:
  "map pf_id (projects facts_unnamed) = [str ''p1'', str ''p2'']
   \<and> map upd_project_id
        (parse_project_updates (facts_to_markdown fmt_example facts_unnamed) facts_unnamed)
       = [str ''p2'']"
proof -
  let ?p1 = "project_plain (str ''p1'') []"
  let ?p2 = "project_plain (str ''p2'') (str ''Beta'')"
  let ?front = "preamble_lines fmt_example facts_unnamed @ project_lines ?p1"
  let ?xs = "[(?p2, False)]"
  have ps: "projects facts_unnamed = [?p1] @ [?p2]" by (simp add: facts_unnamed_def)
  have nm: "pf_name ?p2 = str ''Beta''" "pf_id ?p2 = str ''p2''"
    by (simp_all add: project_plain_def)
  have md: "facts_to_markdown fmt_example facts_unnamed
      = unlines (?front @ concat (map (\<lambda>x. (str ''## '' @ pf_name (fst x)) # block_lines x) ?xs))
        @ []"
    by (simp add: facts_to_markdown_projects [OF ps] block_lines_def)
  have front_nl: "\<forall>l\<in>set ?front. nl \<notin> set l"
    by (simp add: preamble_lines_def project_lines_def body_lines_def status_line_def
        issue_lines_def or_default_def project_plain_def facts_unnamed_def fmt_example_def
        str_def nl_def)
  have block_nl: "\<forall>l\<in>set (concat (map (\<lambda>x. (str ''## '' @ pf_name (fst x)) # block_lines x) ?xs)).
      nl \<notin> set l"
    by (simp add: block_lines_def body_lines_def status_line_def issue_lines_def or_default_def
        project_plain_def str_def nl_def)
  have front_nh: "\<forall>l\<in>set ?front. \<not> is_heading l"
    by (simp add: preamble_lines_def project_lines_def body_lines_def status_line_def
        issue_lines_def or_default_def project_plain_def is_heading_def str_def)
  have block_ok: "\<forall>x\<in>set ?xs. pf_name (fst x) \<noteq> [] \<and> (\<forall>l\<in>set (block_lines x). \<not> is_heading l)"
  proof -
    have "pf_name ?p2 \<noteq> []" by (simp add: project_plain_def str_def)
    then show ?thesis
      using body_lines_not_heading [of _ ?p2] by (auto simp: block_lines_def)
  qed
  have "re_split (facts_to_markdown fmt_example facts_unnamed)
      = line_sections [] (?front @ concat (map (\<lambda>x. (str ''## '' @ pf_name (fst x)) # block_lines x) ?xs)) []"
    unfolding md using front_nl block_nl by (intro re_split_lines) auto
  also have "\<dots> = line_sections ([] @ unlines ?front)
      (concat (map (\<lambda>x. (str ''## '' @ pf_name (fst x)) # block_lines x) ?xs)) []"
    by (rule line_sections_plain [OF front_nh])
  also have "\<dots> = ([] @ unlines ?front)
      # concat (map (\<lambda>x. [pf_name (fst x), nl # unlines (block_lines x)]) ?xs)"
    by (rule line_sections_blocks [OF block_ok])
  finally have pairs: "heading_body_pairs (re_split (facts_to_markdown fmt_example facts_unnamed))
      = [(str ''Beta'', nl # unlines (block_lines (?p2, False)))]"
    by (simp add: heading_body_pairs_def nm)
  have m: "matching_project facts_unnamed (str ''Beta'') = Some ?p2"
    by (simp add: matching_project_def facts_unnamed_def project_plain_def normalize_plain
        normalize_name_strip_map strip_Nil)
  have b: "strip (nl # unlines (block_lines (?p2, False))) \<noteq> []"
    using strip_block [of "(?p2, False)"] body_text_stripped [of ?p2] by simp
  have "parse_project_updates (facts_to_markdown fmt_example facts_unnamed) facts_unnamed
      = routed facts_unnamed (str ''Beta'', nl # unlines (block_lines (?p2, False)))"
    by (simp add: parse_project_updates_routed pairs)
  then have "map upd_project_id
        (parse_project_updates (facts_to_markdown fmt_example facts_unnamed) facts_unnamed)
       = [str ''p2'']"
    using routed_match [OF m b] by (simp add: nm)
  moreover have "map pf_id (projects facts_unnamed) = [str ''p1'', str ''p2'']"
    by (simp add: facts_unnamed_def project_plain_def)
  ultimately show ?thesis by simp
qed


text \<open>
  A line feed in a rendered field: the team name below ends the title line and opens a line
  that reads as the heading of the only project, so the router finds two sections with that
  project's id.
\<close>

definition facts_line_feed :: fact_document where
  "facts_line_feed =
     \<lparr>team_name = str ''Core)'' @ [nl] @ str ''## Beta'' @ [nl] @ str ''Stray ('',
      generated_at_utc = str ''2024-01-01T00:00:00+00:00'',
      projects = [project_plain (str ''p2'') (str ''Beta'')]\<rparr>"

lemma roundtrip_line_feed:
  "map pf_id (projects facts_line_feed) = [str ''p2'']
   \<and> map upd_project_id
        (parse_project_updates (facts_to_markdown fmt_example facts_line_feed) facts_line_feed)
       = [str ''p2'', str ''p2'']"
proof -
  let ?p = "project_plain (str ''p2'') (str ''Beta'')"
  let ?stray = "[str ''Stray ()'', [], generated_line fmt_example facts_line_feed, []]"
  let ?xs = "[(str ''Beta'', ?stray), (str ''Beta'', body_lines ?p)]"
  let ?blocks = "concat (map (\<lambda>x. (str ''## '' @ fst x) # snd x) ?xs)"
  have ps: "projects facts_line_feed = [] @ [?p]" by (simp add: facts_line_feed_def)
  have nm: "pf_name ?p = str ''Beta''" "pf_id ?p = str ''p2''"
    by (simp_all add: project_plain_def)
  have "facts_to_markdown fmt_example facts_line_feed
      = unlines (preamble_lines fmt_example facts_line_feed @ (str ''## '' @ pf_name ?p) # body_lines ?p)"
    using facts_to_markdown_projects [OF ps, of fmt_example] by simp
  also have "\<dots> = unlines ([str ''# Weekly Update (Core)''] @ ?blocks) @ []"
    by (simp add: preamble_lines_eq title_line_def facts_line_feed_def unlines_Cons nm
        generated_line_def)
      (simp add: str_def)
  finally have md: "facts_to_markdown fmt_example facts_line_feed
      = unlines ([str ''# Weekly Update (Core)''] @ ?blocks) @ []" .
  have g_nl: "nl \<notin> set (generated_line fmt_example facts_line_feed)"
    by (simp add: generated_line_def fmt_example_def str_def nl_def)
  have body_nl: "\<forall>l\<in>set (body_lines ?p). nl \<notin> set l"
    by (simp add: body_lines_def status_line_def issue_lines_def or_default_def
        project_plain_def str_def nl_def)
  have all_nl: "\<forall>l\<in>set ([str ''# Weekly Update (Core)''] @ ?blocks). nl \<notin> set l"
    using g_nl body_nl by (auto simp: str_def nl_def)
  have front_nh: "\<forall>l\<in>set [str ''# Weekly Update (Core)'']. \<not> is_heading l"
    by (simp add: is_heading_def str_def)
  have block_ok: "\<forall>x\<in>set ?xs. fst x \<noteq> [] \<and> (\<forall>l\<in>set (snd x). \<not> is_heading l)"
  proof -
    have "str ''Beta'' \<noteq> []" "\<not> is_heading (str ''Stray ()'')"
      by (simp_all add: is_heading_def str_def)
    then show ?thesis
      using body_lines_not_heading [of _ ?p] generated_line_not_heading [of fmt_example facts_line_feed]
        not_heading_empty
      by auto
  qed
  have "re_split (facts_to_markdown fmt_example facts_line_feed)
      = line_sections [] ([str ''# Weekly Update (Core)''] @ ?blocks) []"
    unfolding md by (rule re_split_lines [OF all_nl]) simp
  also have "\<dots> = line_sections ([] @ unlines [str ''# Weekly Update (Core)'']) ?blocks []"
    by (rule line_sections_plain [OF front_nh])
  also have "\<dots> = ([] @ unlines [str ''# Weekly Update (Core)''])
      # concat (map (\<lambda>x. [fst x, nl # unlines (snd x)]) ?xs)"
    by (rule line_sections_blocks [OF block_ok])
  finally have pairs: "heading_body_pairs (re_split (facts_to_markdown fmt_example facts_line_feed))
      = [(str ''Beta'', nl # unlines ?stray), (str ''Beta'', nl # unlines (body_lines ?p))]"
    by (simp add: heading_body_pairs_def)
  have m: "matching_project facts_line_feed (str ''Beta'') = Some ?p"
    by (simp add: matching_project_def facts_line_feed_def project_plain_def normalize_plain)
  have b1: "strip (nl # unlines ?stray) \<noteq> []"
    by (rule strip_nonempty [of 83]) (simp_all add: unlines_Cons str_def is_space_def)
  have b2: "strip (nl # unlines (body_lines ?p)) \<noteq> []"
    using strip_block [of "(?p, False)"] body_text_stripped [of ?p]
    by (simp add: block_lines_def)
  have "parse_project_updates (facts_to_markdown fmt_example facts_line_feed) facts_line_feed
      = routed facts_line_feed (str ''Beta'', nl # unlines ?stray)
        @ routed facts_line_feed (str ''Beta'', nl # unlines (body_lines ?p))"
    by (simp add: parse_project_updates_routed pairs)
  then have "map upd_project_id
        (parse_project_updates (facts_to_markdown fmt_example facts_line_feed) facts_line_feed)
       = [str ''p2'', str ''p2'']"
    using routed_match [OF m b1] routed_match [OF m b2] by (simp add: nm)
  moreover have "map pf_id (projects facts_line_feed) = [str ''p2'']"
    by (simp add: facts_line_feed_def project_plain_def)
  ultimately show ?thesis by simp
qed

end
